theory Spec2Isabelle
  imports Complex_Main
begin

section \<open>Errors\<close>

text \<open>
  The exceptions the modelled functions can raise.  \<open>UnmatchedContextError\<close> and
  \<open>UnmatchedMonotonicityError\<close> are the two subclasses of \<open>ValueError\<close> declared in
  \<^verbatim>\<open>fcapy/lattice/formal_concept.py\<close>; an \<^verbatim>\<open>assert\<close> that fails is \<open>AssertionError\<close>;
  \<open>FrozenInstanceError\<close> is what an assignment to an attribute of a frozen dataclass raises.
\<close>

datatype error =
    AssertionError
  | IndexError
  | KeyError
  | ValueError
  | NotImplementedError
  | UnmatchedContextError
  | UnmatchedMonotonicityError
  | FrozenInstanceError

section \<open>FormalContext\<close>

text \<open>
  \<^verbatim>\<open>fcapy/context/formal_context.py\<close>: a context stores the incidence table as a list of
  rows of booleans, together with the names of the objects (rows) and attributes (columns).
  Indexes are natural numbers (the docstrings restrict them to \<open>[0, n - 1]\<close>); an index
  beyond the end of a list raises \<open>IndexError\<close>.
\<close>

record formal_context =
  data :: "bool list list"
  object_names :: "string list"
  attribute_names :: "string list"

definition n_objects :: "formal_context \<Rightarrow> nat" where
  "n_objects ctx = length (data ctx)"

definition n_attributes :: "formal_context \<Rightarrow> nat" where
  "n_attributes ctx = length (hd (data ctx))"

text \<open>
  What the setters of \<open>data\<close>, \<open>object_names\<close> and \<open>attribute_names\<close> assert: at least one
  row, all rows of the length of the first one, one name for each row and column.
\<close>

definition wf_context :: "formal_context \<Rightarrow> bool" where
  "wf_context ctx \<longleftrightarrow>
     data ctx \<noteq> [] \<and>
     list_all (\<lambda>g_ms. length (hd (data ctx)) = length g_ms) (data ctx) \<and>
     length (object_names ctx) = length (data ctx) \<and>
     length (attribute_names ctx) = length (hd (data ctx))"

text \<open>
  A list comprehension that reads a list at given positions, \<^verbatim>\<open>[g_ms[m] for m in attribute_indexes]\<close>:
  the first position beyond the end raises \<open>IndexError\<close>.
\<close>

fun items_at :: "'a list \<Rightarrow> nat list \<Rightarrow> error + 'a list" where
  "items_at g_ms [] = Inr []"
| "items_at g_ms (m # ms) =
     (if m < length g_ms
      then (case items_at g_ms ms of Inl e \<Rightarrow> Inl e | Inr bs \<Rightarrow> Inr (g_ms ! m # bs))
      else Inl IndexError)"

text \<open>
  \<^verbatim>\<open>[g_idx for g_idx, g_ms in enumerate(self._data) if all([g_ms[m] for m in attribute_indexes])]\<close>,
  with the running index of \<^verbatim>\<open>enumerate\<close> as first argument.
\<close>

fun extension_rows :: "nat \<Rightarrow> bool list list \<Rightarrow> nat list \<Rightarrow> error + nat list" where
  "extension_rows g_idx [] attribute_indexes = Inr []"
| "extension_rows g_idx (g_ms # rows) attribute_indexes =
     (case items_at g_ms attribute_indexes of
        Inl e \<Rightarrow> Inl e
      | Inr bs \<Rightarrow>
          (case extension_rows (Suc g_idx) rows attribute_indexes of
             Inl e \<Rightarrow> Inl e
           | Inr gs \<Rightarrow> Inr (if list_all (\<lambda>b. b) bs then g_idx # gs else gs)))"

definition extension_i :: "formal_context \<Rightarrow> nat list \<Rightarrow> error + nat list" where
  "extension_i ctx attribute_indexes = extension_rows 0 (data ctx) attribute_indexes"

text \<open>The list comprehension \<^verbatim>\<open>[self._data[g_idx][m_idx] for g_idx in object_indexes]\<close>.\<close>

fun column_values :: "bool list list \<Rightarrow> nat \<Rightarrow> nat list \<Rightarrow> error + bool list" where
  "column_values d m_idx [] = Inr []"
| "column_values d m_idx (g # gs) =
     (if g < length d \<and> m_idx < length (d ! g)
      then (case column_values d m_idx gs of Inl e \<Rightarrow> Inl e | Inr bs \<Rightarrow> Inr (d ! g ! m_idx # bs))
      else Inl IndexError)"

text \<open>
  \<^verbatim>\<open>[m_idx for m_idx in range(len(self._data[0])) if all([... for g_idx in object_indexes])]\<close>,
  with the indexes still to visit as second argument.
\<close>

fun intention_cols :: "bool list list \<Rightarrow> nat list \<Rightarrow> nat list \<Rightarrow> error + nat list" where
  "intention_cols d [] object_indexes = Inr []"
| "intention_cols d (m_idx # ms) object_indexes =
     (case column_values d m_idx object_indexes of
        Inl e \<Rightarrow> Inl e
      | Inr bs \<Rightarrow>
          (case intention_cols d ms object_indexes of
             Inl e \<Rightarrow> Inl e
           | Inr r \<Rightarrow> Inr (if list_all (\<lambda>b. b) bs then m_idx # r else r)))"

definition intention_i :: "formal_context \<Rightarrow> nat list \<Rightarrow> error + nat list" where
  "intention_i ctx object_indexes =
     (case data ctx of
        [] \<Rightarrow> Inl IndexError
      | row0 # _ \<Rightarrow> intention_cols (data ctx) [0..<length row0] object_indexes)"

text \<open>
  \<open>__eq__\<close> and \<open>__ne__\<close>: both compare the name lists first and raise \<open>ValueError\<close> when
  they differ; only then are the tables compared.
\<close>

definition context_eq :: "formal_context \<Rightarrow> formal_context \<Rightarrow> error + bool" where
  "context_eq self other =
     (if \<not> (object_names self = object_names other) then Inl ValueError
      else if \<not> (attribute_names self = attribute_names other) then Inl ValueError
      else Inr (data self = data other))"

definition context_ne :: "formal_context \<Rightarrow> formal_context \<Rightarrow> error + bool" where
  "context_ne self other =
     (if \<not> (object_names self = object_names other) then Inl ValueError
      else if \<not> (attribute_names self = attribute_names other) then Inl ValueError
      else Inr (data self \<noteq> data other))"

section \<open>The closure operators on well-formed contexts\<close>

text \<open>The incidence relation read off the table.\<close>

definition incident :: "formal_context \<Rightarrow> nat \<Rightarrow> nat \<Rightarrow> bool" where
  "incident ctx g m \<longleftrightarrow> data ctx ! g ! m"

definition ext_list :: "formal_context \<Rightarrow> nat list \<Rightarrow> nat list" where
  "ext_list ctx ms = filter (\<lambda>g. \<forall>m \<in> set ms. incident ctx g m) [0..<n_objects ctx]"

definition int_list :: "formal_context \<Rightarrow> nat list \<Rightarrow> nat list" where
  "int_list ctx gs = filter (\<lambda>m. \<forall>g \<in> set gs. incident ctx g m) [0..<n_attributes ctx]"

lemma items_at_ok:
  "\<forall>m \<in> set ms. m < length g_ms \<Longrightarrow> items_at g_ms ms = Inr (map (\<lambda>m. g_ms ! m) ms)"
  by (induction ms) auto

lemma extension_rows_ok:
  assumes "\<forall>g_ms \<in> set rows. \<forall>m \<in> set ms. m < length g_ms"
  shows "extension_rows k rows ms =
    Inr (map (\<lambda>i. k + i) (filter (\<lambda>i. \<forall>m \<in> set ms. rows ! i ! m) [0..<length rows]))"
  using assms
proof (induction rows arbitrary: k)
  case Nil
  then show ?case by simp
next
  case (Cons g_ms rows)
  have rv: "items_at g_ms ms = Inr (map (\<lambda>m. g_ms ! m) ms)"
    using Cons.prems by (simp add: items_at_ok)
  have rec: "extension_rows (Suc k) rows ms =
      Inr (map (\<lambda>i. Suc k + i) (filter (\<lambda>i. \<forall>m \<in> set ms. rows ! i ! m) [0..<length rows]))"
    using Cons.prems by (intro Cons.IH) simp
  have split: "[0..<length (g_ms # rows)] = 0 # map Suc [0..<length rows]"
    by (simp add: upt_conv_Cons map_Suc_upt del: upt_Suc)
  have f: "filter (\<lambda>i. \<forall>m \<in> set ms. (g_ms # rows) ! i ! m) (map Suc [0..<length rows])
     = map Suc (filter (\<lambda>i. \<forall>m \<in> set ms. rows ! i ! m) [0..<length rows])"
    by (simp add: filter_map comp_def)
  show ?case
    unfolding split
    apply (simp only: extension_rows.simps rv rec sum.case filter.simps f list.map)
    apply (simp add: list_all_iff)
    done
qed

lemma wf_row_length:
  assumes "wf_context ctx" "g < n_objects ctx"
  shows "length (data ctx ! g) = n_attributes ctx"
proof -
  have "list_all (\<lambda>g_ms. length (hd (data ctx)) = length g_ms) (data ctx)"
    using assms(1) unfolding wf_context_def by blast
  then have "length (hd (data ctx)) = length (data ctx ! g)"
    using assms(2) unfolding list_all_length n_objects_def by blast
  then show ?thesis
    unfolding n_attributes_def by (rule sym)
qed

lemma extension_i_ok:
  assumes "wf_context ctx" "\<forall>m \<in> set ms. m < n_attributes ctx"
  shows "extension_i ctx ms = Inr (ext_list ctx ms)"
proof -
  have "\<forall>g_ms \<in> set (data ctx). \<forall>m \<in> set ms. m < length g_ms"
  proof (intro ballI)
    fix g_ms m
    assume g: "g_ms \<in> set (data ctx)" and m: "m \<in> set ms"
    from g obtain i where i: "i < length (data ctx)" "data ctx ! i = g_ms"
      unfolding in_set_conv_nth by blast
    have "length g_ms = n_attributes ctx"
      using wf_row_length [OF assms(1), of i] i unfolding n_objects_def by blast
    then show "m < length g_ms"
      using assms(2) m by metis
  qed
  then have "extension_rows 0 (data ctx) ms =
    Inr (map (\<lambda>i. 0 + i) (filter (\<lambda>i. \<forall>m \<in> set ms. data ctx ! i ! m) [0..<length (data ctx)]))"
    by (rule extension_rows_ok)
  then show ?thesis
    unfolding extension_i_def ext_list_def incident_def n_objects_def by simp
qed

lemma column_values_ok:
  "\<forall>g \<in> set gs. g < length d \<and> m < length (d ! g) \<Longrightarrow>
   column_values d m gs = Inr (map (\<lambda>g. d ! g ! m) gs)"
  by (induction gs) auto

lemma intention_cols_ok:
  assumes "\<forall>m \<in> set cols. \<forall>g \<in> set gs. g < length d \<and> m < length (d ! g)"
  shows "intention_cols d cols gs = Inr (filter (\<lambda>m. \<forall>g \<in> set gs. d ! g ! m) cols)"
  using assms
proof (induction cols)
  case Nil
  then show ?case by simp
next
  case (Cons m cols)
  have cv: "column_values d m gs = Inr (map (\<lambda>g. d ! g ! m) gs)"
    using Cons.prems by (simp add: column_values_ok)
  have rec: "intention_cols d cols gs = Inr (filter (\<lambda>m. \<forall>g \<in> set gs. d ! g ! m) cols)"
    using Cons.prems by (intro Cons.IH) simp
  show ?case by (simp add: cv rec list_all_iff)
qed

lemma intention_i_ok:
  assumes "wf_context ctx" "\<forall>g \<in> set gs. g < n_objects ctx"
  shows "intention_i ctx gs = Inr (int_list ctx gs)"
proof -
  obtain row0 rest where d: "data ctx = row0 # rest"
    using assms(1) unfolding wf_context_def by (cases "data ctx") blast+
  have hd: "n_attributes ctx = length row0"
    unfolding n_attributes_def d by simp
  have "\<forall>m \<in> set [0..<length row0]. \<forall>g \<in> set gs.
          g < length (data ctx) \<and> m < length (data ctx ! g)"
  proof (intro ballI)
    fix m g
    assume m: "m \<in> set [0..<length row0]" and g: "g \<in> set gs"
    have g': "g < n_objects ctx"
      using assms(2) g by blast
    have "length (data ctx ! g) = length row0"
      using wf_row_length [OF assms(1) g'] hd by simp
    then show "g < length (data ctx) \<and> m < length (data ctx ! g)"
      using m g' unfolding n_objects_def by simp
  qed
  then have "intention_cols (data ctx) [0..<length row0] gs =
      Inr (filter (\<lambda>m. \<forall>g \<in> set gs. data ctx ! g ! m) [0..<length row0])"
    by (rule intention_cols_ok)
  moreover have "intention_i ctx gs = intention_cols (data ctx) [0..<length row0] gs"
    unfolding intention_i_def d by simp
  ultimately show ?thesis
    unfolding int_list_def incident_def hd by simp
qed

section \<open>Closure idempotence\<close>

text \<open>
  \<open>extension_i (intention_i S)\<close> and \<open>intention_i (extension_i T)\<close>, an exception of the inner
  call propagating.
\<close>

definition closure_objects :: "formal_context \<Rightarrow> nat list \<Rightarrow> error + nat list" where
  "closure_objects ctx object_indexes =
     (case intention_i ctx object_indexes of
        Inl e \<Rightarrow> Inl e
      | Inr ms \<Rightarrow> extension_i ctx ms)"

definition closure_attributes :: "formal_context \<Rightarrow> nat list \<Rightarrow> error + nat list" where
  "closure_attributes ctx attribute_indexes =
     (case extension_i ctx attribute_indexes of
        Inl e \<Rightarrow> Inl e
      | Inr gs \<Rightarrow> intention_i ctx gs)"

lemma ext_list_valid: "g \<in> set (ext_list ctx ms) \<Longrightarrow> g < n_objects ctx"
  unfolding ext_list_def by simp

lemma int_list_valid: "m \<in> set (int_list ctx gs) \<Longrightarrow> m < n_attributes ctx"
  unfolding int_list_def by simp

lemma in_ext_list:
  "g \<in> set (ext_list ctx ms) \<longleftrightarrow> g < n_objects ctx \<and> (\<forall>m \<in> set ms. incident ctx g m)"
  unfolding ext_list_def by auto

lemma in_int_list:
  "m \<in> set (int_list ctx gs) \<longleftrightarrow> m < n_attributes ctx \<and> (\<forall>g \<in> set gs. incident ctx g m)"
  unfolding int_list_def by auto

lemma ext_list_cong: "set ms = set ms' \<Longrightarrow> ext_list ctx ms = ext_list ctx ms'"
  unfolding ext_list_def by simp

lemma int_list_cong: "set gs = set gs' \<Longrightarrow> int_list ctx gs = int_list ctx gs'"
  unfolding int_list_def by simp

lemma ext_int_ext_iff:
  assumes "\<forall>m \<in> set ms. m < n_attributes ctx" "g < n_objects ctx"
  shows "(\<forall>m \<in> set (int_list ctx (ext_list ctx ms)). incident ctx g m) \<longleftrightarrow>
         (\<forall>m \<in> set ms. incident ctx g m)"
proof
  assume l: "\<forall>m \<in> set (int_list ctx (ext_list ctx ms)). incident ctx g m"
  show "\<forall>m \<in> set ms. incident ctx g m"
  proof
    fix m assume m: "m \<in> set ms"
    then have "m < n_attributes ctx" using assms(1) by blast
    moreover have "\<forall>g' \<in> set (ext_list ctx ms). incident ctx g' m"
      using m by (simp add: in_ext_list)
    ultimately have "m \<in> set (int_list ctx (ext_list ctx ms))"
      by (simp add: in_int_list)
    then show "incident ctx g m" using l by blast
  qed
next
  assume r: "\<forall>m \<in> set ms. incident ctx g m"
  then have "g \<in> set (ext_list ctx ms)"
    using assms(2) by (simp add: in_ext_list)
  then show "\<forall>m \<in> set (int_list ctx (ext_list ctx ms)). incident ctx g m"
    by (simp add: in_int_list)
qed

lemma int_ext_int_iff:
  assumes "\<forall>g \<in> set gs. g < n_objects ctx" "m < n_attributes ctx"
  shows "(\<forall>g \<in> set (ext_list ctx (int_list ctx gs)). incident ctx g m) \<longleftrightarrow>
         (\<forall>g \<in> set gs. incident ctx g m)"
proof
  assume l: "\<forall>g \<in> set (ext_list ctx (int_list ctx gs)). incident ctx g m"
  show "\<forall>g \<in> set gs. incident ctx g m"
  proof
    fix g assume g: "g \<in> set gs"
    then have "g < n_objects ctx" using assms(1) by blast
    moreover have "\<forall>m' \<in> set (int_list ctx gs). incident ctx g m'"
      using g by (simp add: in_int_list)
    ultimately have "g \<in> set (ext_list ctx (int_list ctx gs))"
      by (simp add: in_ext_list)
    then show "incident ctx g m" using l by blast
  qed
next
  assume r: "\<forall>g \<in> set gs. incident ctx g m"
  then have "m \<in> set (int_list ctx gs)"
    using assms(2) by (simp add: in_int_list)
  then show "\<forall>g \<in> set (ext_list ctx (int_list ctx gs)). incident ctx g m"
    by (simp add: in_ext_list)
qed

lemma ext_int_ext:
  assumes "\<forall>m \<in> set ms. m < n_attributes ctx"
  shows "ext_list ctx (int_list ctx (ext_list ctx ms)) = ext_list ctx ms"
proof -
  let ?X = "int_list ctx (ext_list ctx ms)"
  have a: "ext_list ctx ?X =
      filter (\<lambda>g. \<forall>m \<in> set ?X. incident ctx g m) [0..<n_objects ctx]"
    by (rule ext_list_def)
  have b: "ext_list ctx ms = filter (\<lambda>g. \<forall>m \<in> set ms. incident ctx g m) [0..<n_objects ctx]"
    by (rule ext_list_def)
  have c: "filter (\<lambda>g. \<forall>m \<in> set ?X. incident ctx g m) [0..<n_objects ctx] =
      filter (\<lambda>g. \<forall>m \<in> set ms. incident ctx g m) [0..<n_objects ctx]"
  proof (rule filter_cong [OF refl])
    fix g assume "g \<in> set [0..<n_objects ctx]"
    then have "g < n_objects ctx" by simp
    with assms show "(\<forall>m \<in> set ?X. incident ctx g m) = (\<forall>m \<in> set ms. incident ctx g m)"
      by (rule ext_int_ext_iff)
  qed
  show ?thesis
    by (rule trans [OF a], rule trans [OF c], rule b [symmetric])
qed

lemma int_ext_int:
  assumes "\<forall>g \<in> set gs. g < n_objects ctx"
  shows "int_list ctx (ext_list ctx (int_list ctx gs)) = int_list ctx gs"
proof -
  let ?X = "ext_list ctx (int_list ctx gs)"
  have a: "int_list ctx ?X =
      filter (\<lambda>m. \<forall>g \<in> set ?X. incident ctx g m) [0..<n_attributes ctx]"
    by (rule int_list_def)
  have b: "int_list ctx gs = filter (\<lambda>m. \<forall>g \<in> set gs. incident ctx g m) [0..<n_attributes ctx]"
    by (rule int_list_def)
  have c: "filter (\<lambda>m. \<forall>g \<in> set ?X. incident ctx g m) [0..<n_attributes ctx] =
      filter (\<lambda>m. \<forall>g \<in> set gs. incident ctx g m) [0..<n_attributes ctx]"
  proof (rule filter_cong [OF refl])
    fix m assume "m \<in> set [0..<n_attributes ctx]"
    then have "m < n_attributes ctx" by simp
    with assms show "(\<forall>g \<in> set ?X. incident ctx g m) = (\<forall>g \<in> set gs. incident ctx g m)"
      by (rule int_ext_int_iff)
  qed
  show ?thesis
    by (rule trans [OF a], rule trans [OF c], rule b [symmetric])
qed

lemma closure_objects_ok:
  assumes "wf_context ctx" "\<forall>g \<in> set gs. g < n_objects ctx"
  shows "closure_objects ctx gs = Inr (ext_list ctx (int_list ctx gs))"
proof -
  have "intention_i ctx gs = Inr (int_list ctx gs)"
    using assms by (rule intention_i_ok)
  moreover have "extension_i ctx (int_list ctx gs) = Inr (ext_list ctx (int_list ctx gs))"
    using assms(1) by (rule extension_i_ok) (simp add: int_list_valid)
  ultimately show ?thesis
    unfolding closure_objects_def by simp
qed

lemma closure_attributes_ok:
  assumes "wf_context ctx" "\<forall>m \<in> set ms. m < n_attributes ctx"
  shows "closure_attributes ctx ms = Inr (int_list ctx (ext_list ctx ms))"
proof -
  have "extension_i ctx ms = Inr (ext_list ctx ms)"
    using assms by (rule extension_i_ok)
  moreover have "intention_i ctx (ext_list ctx ms) = Inr (int_list ctx (ext_list ctx ms))"
    using assms(1) by (rule intention_i_ok) (simp add: ext_list_valid)
  ultimately show ?thesis
    unfolding closure_attributes_def by simp
qed

text \<open>
  Claim C7 (closure idempotence).  On a well-formed context, for every list \<open>S\<close> of valid
  object indexes \<open>extension_i (intention_i S)\<close> returns a list \<open>E\<close> that the same round trip
  maps to itself, and dually \<open>intention_i (extension_i T)\<close> returns a fixed point of the dual
  round trip for every list \<open>T\<close> of valid attribute indexes.
\<close>

theorem closure_idempotent:
  assumes "wf_context ctx"
    and "\<forall>g \<in> set S. g < n_objects ctx"
    and "\<forall>m \<in> set T. m < n_attributes ctx"
  shows "(\<exists>E. closure_objects ctx S = Inr E \<and> closure_objects ctx E = Inr E) \<and>
         (\<exists>B. closure_attributes ctx T = Inr B \<and> closure_attributes ctx B = Inr B)"
proof (intro conjI exI)
  let ?E = "ext_list ctx (int_list ctx S)"
  let ?B = "int_list ctx (ext_list ctx T)"
  show "closure_objects ctx S = Inr ?E"
    using assms(1,2) by (rule closure_objects_ok)
  have "closure_objects ctx ?E = Inr (ext_list ctx (int_list ctx ?E))"
    using assms(1) by (rule closure_objects_ok) (simp add: ext_list_valid)
  moreover have "ext_list ctx (int_list ctx ?E) = ?E"
    by (rule ext_int_ext) (simp add: int_list_valid)
  ultimately show "closure_objects ctx ?E = Inr ?E"
    by simp
  show "closure_attributes ctx T = Inr ?B"
    using assms(1,3) by (rule closure_attributes_ok)
  have "closure_attributes ctx ?B = Inr (int_list ctx (ext_list ctx ?B))"
    using assms(1) by (rule closure_attributes_ok) (simp add: int_list_valid)
  moreover have "int_list ctx (ext_list ctx ?B) = ?B"
    by (rule int_ext_int) (simp add: ext_list_valid)
  ultimately show "closure_attributes ctx ?B = Inr ?B"
    by simp
qed

text \<open>The animal movement context of the test suite (the textbook "hunt and fly" example).\<close>

definition animal_movement :: formal_context where
  "animal_movement =
     \<lparr>data = [[False, False, True, False],
              [True, False, True, False],
              [True, False, True, True],
              [True, False, True, True],
              [True, True, False, False],
              [True, True, False, False],
              [True, True, False, False]],
      object_names = [''cow'', ''hen'', ''duck'', ''goose'', ''owl'', ''hawk'', ''eagle''],
      attribute_names = [''fly'', ''hunt'', ''run'', ''swim'']\<rparr>"

lemma wf_animal_movement: "wf_context animal_movement"
  by (simp add: wf_context_def animal_movement_def)

lemma n_animal_movement: "n_objects animal_movement = 7" "n_attributes animal_movement = 4"
  by (simp_all add: n_objects_def n_attributes_def animal_movement_def)

theorem closure_idempotent_witness:
  "closure_objects animal_movement [4] = Inr [4, 5, 6] \<and>
   closure_objects animal_movement [4, 5, 6] = Inr [4, 5, 6] \<and>
   closure_attributes animal_movement [1] = Inr [0, 1] \<and>
   closure_attributes animal_movement [0, 1] = Inr [0, 1]"
proof -
  have a: "closure_objects animal_movement [4] = Inr [4, 5, 6]"
    by (simp add: closure_objects_def intention_i_def extension_i_def animal_movement_def)
  have b: "closure_attributes animal_movement [1] = Inr [0, 1]"
    by (simp add: closure_attributes_def intention_i_def extension_i_def animal_movement_def)
  have "\<forall>g \<in> set [4::nat]. g < n_objects animal_movement"
    "\<forall>m \<in> set [1::nat]. m < n_attributes animal_movement"
    by (simp_all add: n_animal_movement)
  from closure_idempotent [OF wf_animal_movement this] a b show ?thesis
    by simp
qed

section \<open>Comparing contexts\<close>

text \<open>
  Claim C10.  \<open>==\<close> and \<open>!=\<close> on two contexts raise \<open>ValueError\<close> whenever the lists of
  object names differ or the lists of attribute names differ; when both name lists agree
  they return the comparison of the two tables.
\<close>

theorem context_eq_ne_names:
  "(object_names a \<noteq> object_names b \<or> attribute_names a \<noteq> attribute_names b \<longrightarrow>
      context_eq a b = Inl ValueError \<and> context_ne a b = Inl ValueError) \<and>
   (object_names a = object_names b \<and> attribute_names a = attribute_names b \<longrightarrow>
      context_eq a b = Inr (data a = data b) \<and> context_ne a b = Inr (data a \<noteq> data b))"
  unfolding context_eq_def context_ne_def by simp

theorem context_eq_ne_names_witness:
  "context_eq animal_movement (animal_movement\<lparr>object_names := []\<rparr>) = Inl ValueError \<and>
   context_ne animal_movement (animal_movement\<lparr>object_names := []\<rparr>) = Inl ValueError \<and>
   context_eq animal_movement (animal_movement\<lparr>data := [[True]]\<rparr>) = Inr False \<and>
   context_ne animal_movement (animal_movement\<lparr>data := [[True]]\<rparr>) = Inr True"
  using context_eq_ne_names [of animal_movement "animal_movement\<lparr>object_names := []\<rparr>"]
    context_eq_ne_names [of animal_movement "animal_movement\<lparr>data := [[True]]\<rparr>"]
  by (simp add: animal_movement_def)

section \<open>FormalConcept\<close>

text \<open>
  \<^verbatim>\<open>fcapy/lattice/formal_concept.py\<close>: a concept is a frozen dataclass with the fields
  \<open>extent_i\<close>, \<open>extent\<close>, \<open>intent_i\<close>, \<open>intent\<close> (frozen sets), the dictionary \<open>measures\<close>
  (empty by default, here the list of its items), the hash of the context it was computed
  on (\<open>None\<close> by default) and the monotonicity flag (\<open>False\<close> by default).  The class
  \<open>FormalConcept\<close> has the fields of \<open>AbstractConcept\<close>, in the same order.
\<close>

text \<open>
  A measure value is a Python float: a number or NaN (the infinities are left aside).
\<close>

datatype pyfloat = Float real | NaN

record formal_concept =
  extent_i :: "nat set"
  extent :: "string set"
  intent_i :: "nat set"
  intent :: "string set"
  measures :: "(string \<times> pyfloat) list"
  context_hash :: "int option"
  is_monotone :: bool

definition support :: "formal_concept \<Rightarrow> nat" where
  "support c = card (extent_i c)"

text \<open>
  The method \<open>__eq__\<close> that the class \<open>AbstractConcept\<close> defines.  It is the \<open>==\<close> of a class
  that inherits it.
\<close>

definition abstract_concept_eq :: "formal_concept \<Rightarrow> formal_concept \<Rightarrow> error + bool" where
  "abstract_concept_eq self other =
     (if context_hash self \<noteq> context_hash other then Inl UnmatchedContextError
      else if is_monotone self \<noteq> is_monotone other then Inl UnmatchedMonotonicityError
      else if support self \<noteq> support other then Inr False
      else Inr (extent_i self = extent_i other))"

text \<open>
  \<open>==\<close> on two objects of the class \<open>FormalConcept\<close>.  The class is declared with
  \<^verbatim>\<open>@dataclass(frozen=True)\<close> and defines no \<open>__eq__\<close> in its own body, so the decorator gives
  it an \<open>__eq__\<close> of its own, which compares the tuples of all fields and hides the method
  of \<open>AbstractConcept\<close>.  It raises nothing.  Two dictionaries are equal when they hold the
  same items, in whatever order.  (Python compares the items of two tuples or dictionaries
  with \<open>is\<close> before \<open>==\<close>, so a NaN among the measure values is equal to itself as an object
  and to no other NaN; the model, with its one NaN, is exact for measure values without
  NaN.)  The \<open>__hash__\<close> that the decorator adds with it hashes the same tuple.  No
  ordering method is generated, so \<open>\<le>\<close> and \<open><\<close> are the methods \<open>__le__\<close> and \<open>__lt__\<close> of
  \<open>AbstractConcept\<close>.
\<close>

definition fields_eq :: "formal_concept \<Rightarrow> formal_concept \<Rightarrow> bool" where
  "fields_eq self other \<longleftrightarrow>
     extent_i self = extent_i other \<and> extent self = extent other \<and>
     intent_i self = intent_i other \<and> intent self = intent other \<and>
     set (measures self) = set (measures other) \<and> context_hash self = context_hash other \<and>
     is_monotone self = is_monotone other"

definition concept_eq :: "formal_concept \<Rightarrow> formal_concept \<Rightarrow> error + bool" where
  "concept_eq self other = Inr (fields_eq self other)"

definition concept_le :: "formal_concept \<Rightarrow> formal_concept \<Rightarrow> error + bool" where
  "concept_le self other =
     (if context_hash self \<noteq> context_hash other then Inl UnmatchedContextError
      else if is_monotone self \<noteq> is_monotone other then Inl UnmatchedMonotonicityError
      else
        let lesser_ext = (if \<not> is_monotone self then self else other);
            greater_ext = (if \<not> is_monotone self then other else self)
        in if support lesser_ext > support greater_ext then Inr False
           else Inr (extent_i lesser_ext \<inter> extent_i greater_ext = extent_i lesser_ext))"

definition concept_lt :: "formal_concept \<Rightarrow> formal_concept \<Rightarrow> error + bool" where
  "concept_lt self other =
     (if support self = support other then Inr False else concept_le self other)"

text \<open>
  Claim C8.  The claim that comparing two concepts with different context hashes, or of
  which exactly one is monotone, always raises does not hold for \<open>==\<close> on \<open>FormalConcept\<close>s.
  For the concepts \<open>FormalConcept({0}, {'a'}, set(), set(), context_hash=1)\<close> and
  \<open>FormalConcept({0}, {'a'}, set(), set(), context_hash=2)\<close>, and for the first of them and
  \<open>FormalConcept({0}, {'a'}, set(), set(), context_hash=1, is_monotone=True)\<close>, \<open>==\<close> returns
  \<open>False\<close>.  The method of \<open>AbstractConcept\<close> that raises \<open>UnmatchedContextError\<close> and
  \<open>UnmatchedMonotonicityError\<close> on these pairs is hidden by the generated one.  \<open>\<le>\<close> raises
  the two errors, as claimed.
\<close>

theorem concept_eq_returns_False:
  "concept_eq \<lparr>extent_i = {0}, extent = {''a''}, intent_i = {}, intent = {},
               measures = [], context_hash = Some 1, is_monotone = False\<rparr>
              \<lparr>extent_i = {0}, extent = {''a''}, intent_i = {}, intent = {},
               measures = [], context_hash = Some 2, is_monotone = False\<rparr> = Inr False \<and>
   concept_eq \<lparr>extent_i = {0}, extent = {''a''}, intent_i = {}, intent = {},
               measures = [], context_hash = Some 1, is_monotone = False\<rparr>
              \<lparr>extent_i = {0}, extent = {''a''}, intent_i = {}, intent = {},
               measures = [], context_hash = Some 1, is_monotone = True\<rparr> = Inr False \<and>
   abstract_concept_eq
              \<lparr>extent_i = {0}, extent = {''a''}, intent_i = {}, intent = {},
               measures = [], context_hash = Some 1, is_monotone = False\<rparr>
              \<lparr>extent_i = {0}, extent = {''a''}, intent_i = {}, intent = {},
               measures = [], context_hash = Some 2, is_monotone = False\<rparr> =
     Inl UnmatchedContextError \<and>
   abstract_concept_eq
              \<lparr>extent_i = {0}, extent = {''a''}, intent_i = {}, intent = {},
               measures = [], context_hash = Some 1, is_monotone = False\<rparr>
              \<lparr>extent_i = {0}, extent = {''a''}, intent_i = {}, intent = {},
               measures = [], context_hash = Some 1, is_monotone = True\<rparr> =
     Inl UnmatchedMonotonicityError \<and>
   concept_le \<lparr>extent_i = {0}, extent = {''a''}, intent_i = {}, intent = {},
               measures = [], context_hash = Some 1, is_monotone = False\<rparr>
              \<lparr>extent_i = {0}, extent = {''a''}, intent_i = {}, intent = {},
               measures = [], context_hash = Some 2, is_monotone = False\<rparr> =
     Inl UnmatchedContextError \<and>
   concept_le \<lparr>extent_i = {0}, extent = {''a''}, intent_i = {}, intent = {},
               measures = [], context_hash = Some 1, is_monotone = False\<rparr>
              \<lparr>extent_i = {0}, extent = {''a''}, intent_i = {}, intent = {},
               measures = [], context_hash = Some 1, is_monotone = True\<rparr> =
     Inl UnmatchedMonotonicityError"
  by (simp add: concept_eq_def fields_eq_def abstract_concept_eq_def concept_le_def)

section \<open>Close-by-One\<close>

text \<open>
  \<^verbatim>\<open>fcapy/algorithms/concept_construction.py\<close>.  \<open>close_by_one\<close> accepts a \<open>FormalContext\<close>
  or an \<open>MVContext\<close>.  The class \<open>MVContext\<close> is not among the sources at hand; what
  \<open>close_by_one\<close> uses of it are the numbers of objects and attributes and the two closure
  operators, which are kept as fields, with the type \<open>'p\<close> of pattern descriptions left open.
\<close>

record 'p mvcontext =
  mv_n_objects :: nat
  mv_n_attributes :: nat
  mv_extension_i :: "'p \<Rightarrow> error + nat list"
  mv_intention_i :: "nat list \<Rightarrow> error + 'p"

datatype 'p fca_context = FormalContext formal_context | MVContext "'p mvcontext"

text \<open>The classes that \<open>type(context)\<close> is compared with.\<close>

datatype class_name = FormalContextClass | MVContextClass | FormalConceptClass

fun type_of :: "'p fca_context \<Rightarrow> class_name" where
  "type_of (FormalContext ctx) = FormalContextClass"
| "type_of (MVContext mv) = MVContextClass"

fun context_n_objects :: "'p fca_context \<Rightarrow> nat" where
  "context_n_objects (FormalContext ctx) = n_objects ctx"
| "context_n_objects (MVContext mv) = mv_n_objects mv"

fun context_n_attributes :: "'p fca_context \<Rightarrow> nat" where
  "context_n_attributes (FormalContext ctx) = n_attributes ctx"
| "context_n_attributes (MVContext mv) = mv_n_attributes mv"

text \<open>
  A Python dictionary as an association list in insertion order: assigning to a key that
  is present replaces its value in place, a new key goes to the end.
\<close>

fun dict_setitem :: "('k \<times> 'v) list \<Rightarrow> 'k \<Rightarrow> 'v \<Rightarrow> ('k \<times> 'v) list" where
  "dict_setitem [] k v = [(k, v)]"
| "dict_setitem ((k', v') # d) k v =
     (if k' = k then (k', v) # d else (k', v') # dict_setitem d k v)"

definition dict_contains :: "('k \<times> 'v) list \<Rightarrow> 'k \<Rightarrow> bool" where
  "dict_contains d k \<longleftrightarrow> k \<in> set (map fst d)"

text \<open>\<^verbatim>\<open>{idx: x_i for x_i, idx in d.items()}\<close>\<close>

definition dict_invert :: "('k \<times> 'v) list \<Rightarrow> ('v \<times> 'k) list" where
  "dict_invert d = foldl (\<lambda>acc (x_i, idx). dict_setitem acc idx x_i) [] d"

text \<open>\<^verbatim>\<open>sorted(set(xs) - set(ys))\<close>\<close>

definition sorted_set_diff :: "nat list \<Rightarrow> nat list \<Rightarrow> nat list" where
  "sorted_set_diff xs ys = sort (remdups (filter (\<lambda>x. x \<notin> set ys) xs))"

text \<open>
  The \<^verbatim>\<open>while\<close> loop of \<open>close_by_one\<close>.  The state is the list \<open>combinations_to_check\<close>, the
  dictionary \<open>itersets_i_dict\<close> and the list \<open>sidesets_i\<close>; \<open>iterset_fnc\<close>, \<open>sideset_fnc\<close> and
  \<open>iter_elements_to_check\<close> do not change.  An exception of a closure operator ends the loop.
  For arbitrary operators the loop need not stop, hence the \<open>option\<close>.
\<close>

partial_function (option) cbo_loop ::
  "('s \<Rightarrow> error + nat list) \<Rightarrow> (nat list \<Rightarrow> error + 's) \<Rightarrow> nat list \<Rightarrow>
   nat list list \<Rightarrow> (nat list \<times> nat) list \<Rightarrow> 's list \<Rightarrow>
   (error + (nat list \<times> nat) list \<times> 's list) option"
where
  "cbo_loop iterset_fnc sideset_fnc iter_elements_to_check
      combinations_to_check itersets_i_dict sidesets_i =
     (case combinations_to_check of
        [] \<Rightarrow> Some (Inr (itersets_i_dict, sidesets_i))
      | comb_i # rest \<Rightarrow>
          (case sideset_fnc comb_i of
             Inl e \<Rightarrow> Some (Inl e)
           | Inr sideset_i \<Rightarrow>
               (case iterset_fnc sideset_i of
                  Inl e \<Rightarrow> Some (Inl e)
                | Inr iterset_i \<Rightarrow>
                    (let iterset_i_new = sorted_set_diff iterset_i comb_i;
                         is_not_lexicographic =
                           (length comb_i > 0 \<and> list_ex (\<lambda>g_i. g_i < last comb_i) iterset_i_new);
                         is_duplicate = dict_contains itersets_i_dict iterset_i
                     in if is_not_lexicographic \<or> is_duplicate
                        then cbo_loop iterset_fnc sideset_fnc iter_elements_to_check
                               rest itersets_i_dict sidesets_i
                        else
                          (let new_combs =
                                 map (\<lambda>g_i. iterset_i @ [g_i])
                                   (filter (\<lambda>g_i. g_i \<notin> set iterset_i \<and>
                                                 (length comb_i = 0 \<or> g_i > last comb_i))
                                      iter_elements_to_check)
                           in cbo_loop iterset_fnc sideset_fnc iter_elements_to_check
                                (new_combs @ rest)
                                (dict_setitem itersets_i_dict iterset_i (length sidesets_i))
                                (sidesets_i @ [sideset_i]))))))"

declare cbo_loop.simps [code]

text \<open>
  The concepts built from the pairs of \<open>zip(extents_i, intents_i)\<close> on a \<open>FormalContext\<close>;
  the constructor of \<open>FormalConcept\<close> turns the four lists into frozen sets.
\<close>

fun make_concepts ::
  "string list \<Rightarrow> string list \<Rightarrow> int \<Rightarrow> (nat list \<times> nat list) list \<Rightarrow> error + formal_concept list"
where
  "make_concepts obj_names attr_names ctx_hash [] = Inr []"
| "make_concepts obj_names attr_names ctx_hash ((ext_i, int_i) # rest) =
     (case items_at obj_names ext_i of
        Inl e \<Rightarrow> Inl e
      | Inr ext_names \<Rightarrow>
          (case items_at attr_names int_i of
             Inl e \<Rightarrow> Inl e
           | Inr int_names \<Rightarrow>
               (case make_concepts obj_names attr_names ctx_hash rest of
                  Inl e \<Rightarrow> Inl e
                | Inr concepts \<Rightarrow>
                    Inr (\<lparr>extent_i = set ext_i, extent = set ext_names,
                          intent_i = set int_i, intent = set int_names,
                          measures = [],
                          context_hash = Some ctx_hash, is_monotone = False\<rparr> # concepts))))"

text \<open>
  What \<open>close_by_one\<close> returns: a list of \<open>FormalConcept\<close>s, or the dictionary \<open>data\<close> with
  the lists \<open>extents_i\<close> and \<open>intents_i\<close>; on an \<open>MVContext\<close> the extents with the pattern
  descriptions (the class \<open>PatternConcept\<close> is not among the sources at hand).
\<close>

datatype 'p cbo_output =
    Concepts "formal_concept list"
  | Data "nat list list" "nat list list"
  | PatternData "nat list list" "'p list"

text \<open>
  \<open>close_by_one\<close>.  The method \<open>hash_fixed\<close> of the context is not among the sources at hand
  and is a parameter.  The three assertions come first.  The default of \<open>iterate_extents\<close>
  compares the type of the context with the class \<open>FormalConcept\<close>, as the source does.
  On an \<open>MVContext\<close> the assertion leaves \<open>iterate_extents = True\<close> only, so the operators
  are never swapped there.
\<close>

definition close_by_one ::
  "(formal_context \<Rightarrow> int) \<Rightarrow> 'p fca_context \<Rightarrow> bool \<Rightarrow> bool option \<Rightarrow>
   nat list list option \<Rightarrow> nat list option \<Rightarrow> (error + 'p cbo_output) option"
where
  "close_by_one hash_fixed context output_as_concepts iterate_extents
      initial_combinations iter_elements_to_check =
     (if iterate_extents = Some False \<and> type_of context \<noteq> FormalContextClass
        then Some (Inl AssertionError)
      else if initial_combinations \<noteq> None \<and> iterate_extents = None
        then Some (Inl AssertionError)
      else if iter_elements_to_check \<noteq> None \<and> iterate_extents = None
        then Some (Inl AssertionError)
      else
        (let iterate_extents =
               (case iterate_extents of
                  None \<Rightarrow> (if type_of context = FormalConceptClass
                            then context_n_objects context < context_n_attributes context
                            else True)
                | Some b \<Rightarrow> b);
             n_iters = (if iterate_extents then context_n_objects context
                        else context_n_attributes context);
             iter_elements_to_check =
               (case iter_elements_to_check of None \<Rightarrow> [0..<n_iters] | Some es \<Rightarrow> es);
             combinations_to_check =
               (case initial_combinations of None \<Rightarrow> [[]] | Some cs \<Rightarrow> cs)
         in case context of
              FormalContext ctx \<Rightarrow>
                (case cbo_loop
                        (if iterate_extents then extension_i ctx else intention_i ctx)
                        (if iterate_extents then intention_i ctx else extension_i ctx)
                        iter_elements_to_check combinations_to_check [] [] of
                   None \<Rightarrow> None
                 | Some (Inl e) \<Rightarrow> Some (Inl e)
                 | Some (Inr (itersets_i_dict, sidesets_i)) \<Rightarrow>
                     (let itersets_i = map snd (dict_invert itersets_i_dict);
                          extents_i = (if iterate_extents then itersets_i else sidesets_i);
                          intents_i = (if iterate_extents then sidesets_i else itersets_i)
                      in if output_as_concepts
                         then (case make_concepts (object_names ctx) (attribute_names ctx)
                                      (hash_fixed ctx) (zip extents_i intents_i) of
                                 Inl e \<Rightarrow> Some (Inl e)
                               | Inr concepts \<Rightarrow> Some (Inr (Concepts concepts)))
                         else Some (Inr (Data extents_i intents_i))))
            | MVContext mv \<Rightarrow>
                (case cbo_loop (mv_extension_i mv) (mv_intention_i mv)
                        iter_elements_to_check combinations_to_check [] [] of
                   None \<Rightarrow> None
                 | Some (Inl e) \<Rightarrow> Some (Inl e)
                 | Some (Inr (itersets_i_dict, sidesets_i)) \<Rightarrow>
                     Some (Inr (PatternData (map snd (dict_invert itersets_i_dict)) sidesets_i)))))"

section \<open>The loop of Close-by-One over a closure operator\<close>

text \<open>
  The properties of the two operators that the loop relies on, for index lists below \<open>n\<close>:
  \<open>sideset_fnc\<close> returns \<open>sd xs\<close>, \<open>iterset_fnc\<close> maps that to \<open>c xs\<close>, and \<open>c\<close> is a closure
  operator whose values are strictly increasing lists of indexes below \<open>n\<close>.
\<close>

definition valid :: "nat \<Rightarrow> nat list \<Rightarrow> bool" where
  "valid n xs \<longleftrightarrow> (\<forall>x \<in> set xs. x < n)"

definition closure_ops ::
  "nat \<Rightarrow> ('s \<Rightarrow> error + nat list) \<Rightarrow> (nat list \<Rightarrow> error + 's) \<Rightarrow>
   (nat list \<Rightarrow> 's) \<Rightarrow> (nat list \<Rightarrow> nat list) \<Rightarrow> bool" where
  "closure_ops n iterset_fnc sideset_fnc sd c \<longleftrightarrow>
     (\<forall>xs. valid n xs \<longrightarrow> sideset_fnc xs = Inr (sd xs) \<and> iterset_fnc (sd xs) = Inr (c xs)) \<and>
     (\<forall>xs. sorted (c xs) \<and> distinct (c xs) \<and> valid n (c xs)) \<and>
     (\<forall>xs. valid n xs \<longrightarrow> set xs \<subseteq> set (c xs)) \<and>
     (\<forall>xs ys. set xs \<subseteq> set (c ys) \<longrightarrow> set (c xs) \<subseteq> set (c ys)) \<and>
     (\<forall>xs. valid n xs \<longrightarrow> sd (c xs) = sd xs)"

lemma ops_calls:
  "closure_ops n h f sd c \<Longrightarrow> valid n xs \<Longrightarrow> f xs = Inr (sd xs) \<and> h (sd xs) = Inr (c xs)"
  unfolding closure_ops_def by blast

lemma ops_sorted: "closure_ops n h f sd c \<Longrightarrow> sorted (c xs) \<and> distinct (c xs)"
  unfolding closure_ops_def by blast

lemma ops_valid: "closure_ops n h f sd c \<Longrightarrow> valid n (c xs)"
  unfolding closure_ops_def by blast

lemma ops_ext: "closure_ops n h f sd c \<Longrightarrow> valid n xs \<Longrightarrow> set xs \<subseteq> set (c xs)"
  unfolding closure_ops_def by blast

lemma ops_mono: "closure_ops n h f sd c \<Longrightarrow> set xs \<subseteq> set (c ys) \<Longrightarrow> set (c xs) \<subseteq> set (c ys)"
  unfolding closure_ops_def by blast

lemma ops_sd: "closure_ops n h f sd c \<Longrightarrow> valid n xs \<Longrightarrow> sd (c xs) = sd xs"
  unfolding closure_ops_def by blast

lemma ops_eqI:
  assumes "closure_ops n h f sd c" "set (c xs) = set (c ys)"
  shows "c xs = c ys"
  using ops_sorted [OF assms(1), of xs] ops_sorted [OF assms(1), of ys] assms(2)
  by (simp add: sorted_distinct_set_unique)

lemma ops_idem:
  assumes "closure_ops n h f sd c"
  shows "c (c xs) = c xs"
proof (rule ops_eqI [OF assms])
  have "set (c (c xs)) \<subseteq> set (c xs)"
    by (rule ops_mono [OF assms]) simp
  moreover have "set (c xs) \<subseteq> set (c (c xs))"
    by (rule ops_ext [OF assms ops_valid [OF assms]])
  ultimately show "set (c (c xs)) = set (c xs)"
    by (rule equalityI)
qed

lemma ops_sub:
  assumes "closure_ops n h f sd c" "valid n ys" "set xs \<subseteq> set ys"
  shows "set (c xs) \<subseteq> set (c ys)"
proof (rule ops_mono [OF assms(1)])
  show "set xs \<subseteq> set (c ys)"
    using assms(3) ops_ext [OF assms(1,2)] by (rule subset_trans)
qed

lemma ops_cong:
  assumes "closure_ops n h f sd c" "valid n xs" "set xs = set ys"
  shows "c xs = c ys"
proof (rule ops_eqI [OF assms(1)])
  have v: "valid n ys" using assms(2,3) unfolding valid_def by simp
  have "set (c xs) \<subseteq> set (c ys)"
    using assms(1) v by (rule ops_sub) (simp add: assms(3))
  moreover have "set (c ys) \<subseteq> set (c xs)"
    using assms(1,2) by (rule ops_sub) (simp add: assms(3))
  ultimately show "set (c xs) = set (c ys)"
    by (rule equalityI)
qed

lemma closed_eqI:
  assumes "closure_ops n h f sd c" "c A = A" "c B = B" "set A = set B"
  shows "A = B"
proof -
  have "c A = c B"
    by (rule ops_eqI [OF assms(1)]) (simp add: assms)
  then show ?thesis using assms(2,3) by simp
qed

text \<open>
  The generator bound of a closed list \<open>A\<close>: the least \<open>t\<close> such that the members of \<open>A\<close>
  below \<open>t\<close> generate \<open>A\<close>.  The extension of \<open>A\<close> by \<open>j\<close> passes the test of the loop when the
  closure brings in no index below \<open>j\<close>.
\<close>

definition gen :: "(nat list \<Rightarrow> nat list) \<Rightarrow> nat list \<Rightarrow> nat" where
  "gen c A = (LEAST t. c (filter (\<lambda>x. x < t) A) = A)"

definition canon :: "(nat list \<Rightarrow> nat list) \<Rightarrow> nat list \<Rightarrow> nat \<Rightarrow> bool" where
  "canon c A j \<longleftrightarrow> (\<forall>x \<in> set (c (A @ [j])). x < j \<longrightarrow> x \<in> set A)"

lemma gen_root:
  assumes "closure_ops n h f sd c"
  shows "gen c (c []) = 0"
proof -
  have "c (filter (\<lambda>x. x < 0) (c [])) = c []" by simp
  then show ?thesis unfolding gen_def by (rule Least_eq_0)
qed

lemma gen_generates:
  assumes ops: "closure_ops n h f sd c" and cl: "c A = A"
  shows "c (filter (\<lambda>x. x < gen c A) A) = A"
proof -
  have v: "valid n A" using ops_valid [OF ops, of A] cl by simp
  then have "filter (\<lambda>x. x < n) A = A"
    unfolding valid_def by (simp add: filter_id_conv)
  then have "c (filter (\<lambda>x. x < n) A) = A" using cl by simp
  then show ?thesis unfolding gen_def by (rule LeastI)
qed

lemma gen_step:
  assumes ops: "closure_ops n h f sd c" and cl: "c A = A"
    and j: "j < n" "j \<notin> set A" "gen c A \<le> j" and can: "canon c A j"
  shows "gen c (c (A @ [j])) = Suc j"
proof -
  let ?B = "c (A @ [j])"
  have vA: "valid n A" using ops_valid [OF ops, of A] cl by simp
  have vAj: "valid n (A @ [j])" using vA j(1) unfolding valid_def by simp
  have AjB: "set (A @ [j]) \<subseteq> set ?B" by (rule ops_ext [OF ops vAj])
  have vB: "valid n ?B" by (rule ops_valid [OF ops])
  have clB: "c ?B = ?B" by (rule ops_idem [OF ops])
  have P: "c (filter (\<lambda>x. x < Suc j) ?B) = ?B"
  proof (rule closed_eqI [OF ops ops_idem [OF ops] clB], rule equalityI)
    have "set (filter (\<lambda>x. x < Suc j) ?B) \<subseteq> set (c ?B)"
      unfolding clB by auto
    then show "set (c (filter (\<lambda>x. x < Suc j) ?B)) \<subseteq> set ?B"
      using ops_mono [OF ops, of "filter (\<lambda>x. x < Suc j) ?B" ?B] clB by simp
  next
    let ?F = "filter (\<lambda>x. x < Suc j) ?B"
    have vF: "valid n ?F" using vB unfolding valid_def by simp
    have F: "set ?F \<subseteq> set (c ?F)" by (rule ops_ext [OF ops vF])
    have "set (filter (\<lambda>x. x < gen c A) A) \<subseteq> set ?F"
      using AjB j(3) by auto
    then have "set (filter (\<lambda>x. x < gen c A) A) \<subseteq> set (c ?F)"
      using F by (rule subset_trans)
    then have "set (c (filter (\<lambda>x. x < gen c A) A)) \<subseteq> set (c ?F)"
      by (rule ops_mono [OF ops])
    then have "set A \<subseteq> set (c ?F)"
      unfolding gen_generates [OF ops cl] .
    moreover have "j \<in> set (c ?F)"
      using AjB F by auto
    ultimately have "set (A @ [j]) \<subseteq> set (c ?F)" by simp
    then show "set ?B \<subseteq> set (c ?F)"
      by (rule ops_mono [OF ops])
  qed
  have Q: "Suc j \<le> t" if t: "c (filter (\<lambda>x. x < t) ?B) = ?B" for t
  proof (rule ccontr)
    assume "\<not> Suc j \<le> t"
    then have tj: "t \<le> j" by simp
    have "set (filter (\<lambda>x. x < t) ?B) \<subseteq> set A"
      using can tj unfolding canon_def by auto
    then have "set (filter (\<lambda>x. x < t) ?B) \<subseteq> set (c A)"
      unfolding cl .
    then have "set (c (filter (\<lambda>x. x < t) ?B)) \<subseteq> set (c A)"
      by (rule ops_mono [OF ops])
    then have "set ?B \<subseteq> set A" unfolding t cl .
    moreover have "j \<in> set ?B" using AjB by simp
    ultimately show False using j(2) by blast
  qed
  show ?thesis
    unfolding gen_def using P Q by (rule Least_equality)
qed

text \<open>One iteration of the loop, for operators that satisfy \<open>closure_ops\<close>.\<close>

definition cbo_skip :: "(nat list \<Rightarrow> nat list) \<Rightarrow> nat list \<Rightarrow> (nat list \<times> nat) list \<Rightarrow> bool" where
  "cbo_skip c comb D \<longleftrightarrow>
     (comb \<noteq> [] \<and> (\<exists>g \<in> set (c comb) - set comb. g < last comb)) \<or> c comb \<in> fst ` set D"

definition cbo_new :: "nat \<Rightarrow> (nat list \<Rightarrow> nat list) \<Rightarrow> nat list \<Rightarrow> nat list list" where
  "cbo_new n c comb =
     map (\<lambda>g. c comb @ [g])
       (filter (\<lambda>g. g \<notin> set (c comb) \<and> (length comb = 0 \<or> g > last comb)) [0..<n])"

lemma set_sorted_set_diff: "set (sorted_set_diff xs ys) = set xs - set ys"
  unfolding sorted_set_diff_def by auto

lemma dict_setitem_new: "k \<notin> fst ` set d \<Longrightarrow> dict_setitem d k v = d @ [(k, v)]"
  by (induction d) auto

lemma cbo_loop_Nil: "cbo_loop h f es [] D S = Some (Inr (D, S))"
  by (subst cbo_loop.simps) simp

lemma cbo_loop_Cons:
  assumes ops: "closure_ops n h f sd c" and v: "valid n comb"
  shows "cbo_loop h f [0..<n] (comb # rest) D S =
     (if cbo_skip c comb D then cbo_loop h f [0..<n] rest D S
      else cbo_loop h f [0..<n] (cbo_new n c comb @ rest)
             (D @ [(c comb, length S)]) (S @ [sd comb]))"
proof -
  have calls: "f comb = Inr (sd comb)" "h (sd comb) = Inr (c comb)"
    using ops_calls [OF ops v] by simp_all
  have skip: "((comb \<noteq> [] \<and> list_ex (\<lambda>g_i. g_i < last comb) (sorted_set_diff (c comb) comb))
      \<or> dict_contains D (c comb)) = cbo_skip c comb D"
    unfolding cbo_skip_def list_ex_iff set_sorted_set_diff dict_contains_def by auto
  show ?thesis
  proof (cases "cbo_skip c comb D")
    case True
    show ?thesis
      by (subst cbo_loop.simps) (simp add: calls skip True Let_def)
  next
    case False
    then have "c comb \<notin> fst ` set D" unfolding cbo_skip_def by simp
    then have d: "dict_setitem D (c comb) (length S) = D @ [(c comb, length S)]"
      by (rule dict_setitem_new)
    show ?thesis
      by (subst cbo_loop.simps) (simp add: calls skip False Let_def d cbo_new_def)
  qed
qed

text \<open>The invariant of the loop.\<close>

definition inv_dict :: "(nat list \<Rightarrow> 's) \<Rightarrow> (nat list \<Rightarrow> nat list) \<Rightarrow> (nat list \<times> nat) list \<Rightarrow> 's list \<Rightarrow> bool" where
  "inv_dict sd c D S \<longleftrightarrow>
     length S = length D \<and> distinct (map fst D) \<and> map snd D = [0..<length D] \<and>
     (\<forall>i < length D. c (fst (D ! i)) = fst (D ! i) \<and> S ! i = sd (fst (D ! i)))"

definition inv_queue :: "nat \<Rightarrow> (nat list \<Rightarrow> nat list) \<Rightarrow> nat list list \<Rightarrow> (nat list \<times> nat) list \<Rightarrow> bool" where
  "inv_queue n c Q D \<longleftrightarrow>
     (\<forall>comb \<in> set Q. comb = [] \<or>
        (\<exists>A j. comb = A @ [j] \<and> A \<in> fst ` set D \<and> j \<notin> set A \<and> j < n \<and> gen c A \<le> j))"

definition inv_cover :: "nat \<Rightarrow> (nat list \<Rightarrow> nat list) \<Rightarrow> nat list list \<Rightarrow> (nat list \<times> nat) list \<Rightarrow> bool" where
  "inv_cover n c Q D \<longleftrightarrow>
     (\<forall>A \<in> fst ` set D. \<forall>j < n. j \<notin> set A \<and> gen c A \<le> j \<longrightarrow>
        A @ [j] \<in> set Q \<or> \<not> canon c A j \<or> c (A @ [j]) \<in> fst ` set D)"

definition inv_root :: "(nat list \<Rightarrow> nat list) \<Rightarrow> nat list list \<Rightarrow> (nat list \<times> nat) list \<Rightarrow> bool" where
  "inv_root c Q D \<longleftrightarrow> [] \<in> set Q \<or> c [] \<in> fst ` set D"

definition cbo_inv ::
  "nat \<Rightarrow> (nat list \<Rightarrow> 's) \<Rightarrow> (nat list \<Rightarrow> nat list) \<Rightarrow> nat list list \<Rightarrow> (nat list \<times> nat) list \<Rightarrow> 's list \<Rightarrow> bool" where
  "cbo_inv n sd c Q D S \<longleftrightarrow>
     inv_dict sd c D S \<and> inv_queue n c Q D \<and> inv_cover n c Q D \<and> inv_root c Q D"

lemma keys_closed:
  assumes "inv_dict sd c D S" "A \<in> fst ` set D"
  shows "c A = A"
proof -
  from assms(2) obtain p where p: "p \<in> set D" "fst p = A"
    by auto
  from p(1) obtain i where "i < length D" "D ! i = p"
    unfolding in_set_conv_nth by blast
  with p(2) have i: "i < length D" "fst (D ! i) = A"
    by simp_all
  have "c (fst (D ! i)) = fst (D ! i)"
    using assms(1) i(1) unfolding inv_dict_def by blast
  then show ?thesis unfolding i(2) .
qed

lemma queue_valid:
  assumes ops: "closure_ops n h f sd c" and d: "inv_dict sd c D S"
    and q: "inv_queue n c Q D" and m: "comb \<in> set Q"
  shows "valid n comb"
proof (cases "comb = []")
  case True
  then show ?thesis unfolding valid_def by simp
next
  case False
  then obtain A j where Aj: "comb = A @ [j]" "A \<in> fst ` set D" "j < n"
    using q m unfolding inv_queue_def by blast
  have "valid n A"
    using ops_valid [OF ops, of A] keys_closed [OF d Aj(2)] by simp
  then show ?thesis using Aj(1,3) unfolding valid_def by simp
qed

lemma skip_not_canon:
  assumes "comb = A @ [j]" "\<exists>g \<in> set (c comb) - set comb. g < last comb"
  shows "\<not> canon c A j"
  using assms unfolding canon_def by auto

lemma not_skip_canon:
  assumes "comb = A @ [j]" "\<not> cbo_skip c comb D"
  shows "canon c A j"
  using assms unfolding canon_def cbo_skip_def by auto

lemma inv_skip:
  assumes inv: "cbo_inv n sd c (comb # rest) D S" and skip: "cbo_skip c comb D"
  shows "cbo_inv n sd c rest D S"
proof -
  have d: "inv_dict sd c D S" and q: "inv_queue n c (comb # rest) D"
    and cv: "inv_cover n c (comb # rest) D" and r: "inv_root c (comb # rest) D"
    using inv unfolding cbo_inv_def by simp_all
  have q': "inv_queue n c rest D"
    using q unfolding inv_queue_def by simp
  have cv': "inv_cover n c rest D"
    unfolding inv_cover_def
  proof (intro ballI allI impI)
    fix A j assume A: "A \<in> fst ` set D" and j: "j < n" and h: "j \<notin> set A \<and> gen c A \<le> j"
    have old: "A @ [j] \<in> set (comb # rest) \<or> \<not> canon c A j \<or> c (A @ [j]) \<in> fst ` set D"
      using cv A j h unfolding inv_cover_def by blast
    show "A @ [j] \<in> set rest \<or> \<not> canon c A j \<or> c (A @ [j]) \<in> fst ` set D"
    proof (cases "A @ [j] = comb")
      case True
      then have e: "comb = A @ [j]" by simp
      from skip show ?thesis
        unfolding cbo_skip_def
      proof
        assume "comb \<noteq> [] \<and> (\<exists>g \<in> set (c comb) - set comb. g < last comb)"
        then have "\<not> canon c A j" using skip_not_canon [OF e] by blast
        then show ?thesis by simp
      next
        assume "c comb \<in> fst ` set D"
        then show ?thesis unfolding e by simp
      qed
    next
      case False
      then show ?thesis using old by auto
    qed
  qed
  have r': "inv_root c rest D"
  proof (cases "comb = []")
    case True
    then have "c [] \<in> fst ` set D" using skip unfolding cbo_skip_def by simp
    then show ?thesis unfolding inv_root_def by simp
  next
    case False
    then show ?thesis using r unfolding inv_root_def by auto
  qed
  show ?thesis unfolding cbo_inv_def using d q' cv' r' by simp
qed

lemma in_cbo_new:
  "x \<in> set (cbo_new n c comb) \<longleftrightarrow>
   (\<exists>g < n. x = c comb @ [g] \<and> g \<notin> set (c comb) \<and> (comb = [] \<or> last comb < g))"
  unfolding cbo_new_def by auto

lemma gen_accepted:
  assumes ops: "closure_ops n h f sd c" and d: "inv_dict sd c D S"
    and q: "inv_queue n c (comb # rest) D" and ns: "\<not> cbo_skip c comb D"
  shows "gen c (c comb) = (if comb = [] then 0 else Suc (last comb))"
proof (cases "comb = []")
  case True
  then show ?thesis using gen_root [OF ops] by simp
next
  case False
  then obtain A j where Aj: "comb = A @ [j]" "A \<in> fst ` set D" "j \<notin> set A" "j < n" "gen c A \<le> j"
    using q unfolding inv_queue_def by auto
  have "gen c (c (A @ [j])) = Suc j"
    using ops keys_closed [OF d Aj(2)] Aj(4,3,5) not_skip_canon [OF Aj(1) ns]
    by (rule gen_step)
  then show ?thesis using Aj(1) by simp
qed

lemma inv_dict_accept:
  assumes ops: "closure_ops n h f sd c" and d: "inv_dict sd c D S"
    and v: "valid n comb" and new: "c comb \<notin> fst ` set D"
  shows "inv_dict sd c (D @ [(c comb, length S)]) (S @ [sd comb])"
proof -
  have len: "length S = length D" and dist: "distinct (map fst D)"
    and idx: "map snd D = [0..<length D]"
    and old: "\<And>i. i < length D \<Longrightarrow> c (fst (D ! i)) = fst (D ! i) \<and> S ! i = sd (fst (D ! i))"
    using d unfolding inv_dict_def by simp_all
  have nw: "c comb \<notin> set (map fst D)" using new by simp
  have 1: "length (S @ [sd comb]) = length (D @ [(c comb, length S)])"
    using len by simp
  have 2: "distinct (map fst (D @ [(c comb, length S)]))"
    using dist nw by simp
  have 3: "map snd (D @ [(c comb, length S)]) = [0..<length (D @ [(c comb, length S)])]"
    using idx len by simp
  have 4: "c (fst ((D @ [(c comb, length S)]) ! i)) = fst ((D @ [(c comb, length S)]) ! i) \<and>
      (S @ [sd comb]) ! i = sd (fst ((D @ [(c comb, length S)]) ! i))"
    if i: "i < length (D @ [(c comb, length S)])" for i
  proof (cases "i < length D")
    case True
    then show ?thesis using old [OF True] len by (simp add: nth_append)
  next
    case False
    then have e: "i = length D" using i by simp
    show ?thesis
      unfolding e using len ops_idem [OF ops, of comb] ops_sd [OF ops v]
      by (simp add: nth_append)
  qed
  show ?thesis
    unfolding inv_dict_def using 1 2 3 4 by blast
qed

lemma inv_queue_accept:
  assumes ops: "closure_ops n h f sd c" and d: "inv_dict sd c D S"
    and q: "inv_queue n c (comb # rest) D" and ns: "\<not> cbo_skip c comb D"
  shows "inv_queue n c (cbo_new n c comb @ rest) (D @ [(c comb, length S)])"
  unfolding inv_queue_def
proof
  fix x assume "x \<in> set (cbo_new n c comb @ rest)"
  then consider (new) "x \<in> set (cbo_new n c comb)" | (old) "x \<in> set rest"
    by auto
  then show "x = [] \<or> (\<exists>A j. x = A @ [j] \<and> A \<in> fst ` set (D @ [(c comb, length S)]) \<and>
      j \<notin> set A \<and> j < n \<and> gen c A \<le> j)"
  proof cases
    case new
    then obtain g where g: "g < n" "x = c comb @ [g]" "g \<notin> set (c comb)" "comb = [] \<or> last comb < g"
      unfolding in_cbo_new by blast
    have "gen c (c comb) \<le> g"
      unfolding gen_accepted [OF ops d q ns] using g(4) by auto
    moreover have "c comb \<in> fst ` set (D @ [(c comb, length S)])"
      by simp
    ultimately show ?thesis using g(1,2,3) by blast
  next
    case old
    then have "x = [] \<or> (\<exists>A j. x = A @ [j] \<and> A \<in> fst ` set D \<and>
      j \<notin> set A \<and> j < n \<and> gen c A \<le> j)"
      using q unfolding inv_queue_def by simp
    then show ?thesis by auto
  qed
qed

lemma inv_cover_accept:
  assumes ops: "closure_ops n h f sd c" and d: "inv_dict sd c D S"
    and q: "inv_queue n c (comb # rest) D" and cv: "inv_cover n c (comb # rest) D"
    and ns: "\<not> cbo_skip c comb D"
  shows "inv_cover n c (cbo_new n c comb @ rest) (D @ [(c comb, length S)])"
  unfolding inv_cover_def
proof (intro ballI allI impI)
  let ?D' = "D @ [(c comb, length S)]"
  fix A j assume A: "A \<in> fst ` set ?D'" and j: "j < n" and h: "j \<notin> set A \<and> gen c A \<le> j"
  from A have "A = c comb \<or> A \<in> fst ` set D" by auto
  then show "A @ [j] \<in> set (cbo_new n c comb @ rest) \<or> \<not> canon c A j \<or>
      c (A @ [j]) \<in> fst ` set ?D'"
  proof
    assume e: "A = c comb"
    have "gen c (c comb) \<le> j" using h unfolding e by simp
    then have "comb = [] \<or> last comb < j"
      unfolding gen_accepted [OF ops d q ns] by (cases "comb = []") simp_all
    then have "A @ [j] \<in> set (cbo_new n c comb)"
      unfolding in_cbo_new using j h e by blast
    then show ?thesis by simp
  next
    assume old: "A \<in> fst ` set D"
    have "A @ [j] \<in> set (comb # rest) \<or> \<not> canon c A j \<or> c (A @ [j]) \<in> fst ` set D"
      using cv old j h unfolding inv_cover_def by blast
    then show ?thesis by auto
  qed
qed

lemma inv_root_accept:
  assumes r: "inv_root c (comb # rest) D"
  shows "inv_root c (cbo_new n c comb @ rest) (D @ [(c comb, length S)])"
proof (cases "comb = []")
  case True
  then show ?thesis unfolding inv_root_def by simp
next
  case False
  then show ?thesis using r unfolding inv_root_def by auto
qed

lemma inv_accept:
  assumes ops: "closure_ops n h f sd c"
    and inv: "cbo_inv n sd c (comb # rest) D S" and ns: "\<not> cbo_skip c comb D"
  shows "cbo_inv n sd c (cbo_new n c comb @ rest) (D @ [(c comb, length S)]) (S @ [sd comb])"
proof -
  have d: "inv_dict sd c D S" and q: "inv_queue n c (comb # rest) D"
    and cv: "inv_cover n c (comb # rest) D" and r: "inv_root c (comb # rest) D"
    using inv unfolding cbo_inv_def by simp_all
  have v: "valid n comb"
    using ops d q by (rule queue_valid) simp
  have new: "c comb \<notin> fst ` set D"
    using ns unfolding cbo_skip_def by simp
  show ?thesis
    unfolding cbo_inv_def
    using inv_dict_accept [OF ops d v new] inv_queue_accept [OF ops d q ns]
      inv_cover_accept [OF ops d q cv ns] inv_root_accept [OF r]
    by blast
qed

text \<open>Termination: every accepted key is new and comes from a finite set.\<close>

definition universe :: "nat \<Rightarrow> nat list set" where
  "universe n = {xs. set xs \<subseteq> {..<n} \<and> length xs \<le> n}"

lemma finite_universe: "finite (universe n)"
  unfolding universe_def by (rule finite_lists_length_le) simp

lemma closed_in_universe:
  assumes ops: "closure_ops n h f sd c"
  shows "c xs \<in> universe n"
proof -
  have s: "set (c xs) \<subseteq> {..<n}"
    using ops_valid [OF ops, of xs] unfolding valid_def by auto
  have "length (c xs) = card (set (c xs))"
    using ops_sorted [OF ops, of xs] by (simp add: distinct_card)
  also have "\<dots> \<le> card {..<n}"
    using s by (intro card_mono) simp_all
  finally show ?thesis unfolding universe_def using s by simp
qed

lemma measure_accept:
  assumes ops: "closure_ops n h f sd c" and new: "c comb \<notin> fst ` set D"
  shows "card (universe n - fst ` set (D @ [(c comb, k)])) < card (universe n - fst ` set D)"
proof -
  have e: "universe n - fst ` set (D @ [(c comb, k)]) = (universe n - fst ` set D) - {c comb}"
    by auto
  have m: "c comb \<in> universe n - fst ` set D"
    using closed_in_universe [OF ops] new by simp
  have fin: "finite (universe n - fst ` set D)"
    using finite_universe by simp
  show ?thesis
    unfolding e using fin m by (rule card_Diff1_less)
qed

lemma cbo_loop_correct:
  assumes ops: "closure_ops n h f sd c"
  shows "cbo_inv n sd c Q D S \<Longrightarrow>
    \<exists>D' S'. cbo_loop h f [0..<n] Q D S = Some (Inr (D', S')) \<and> cbo_inv n sd c [] D' S'"
proof (induction "card (universe n - fst ` set D)" arbitrary: Q D S rule: less_induct)
  case less
  show ?case using less.prems
  proof (induction Q)
    case Nil
    then show ?case by (simp add: cbo_loop_Nil)
  next
    case (Cons comb rest)
    have d: "inv_dict sd c D S" and q: "inv_queue n c (comb # rest) D"
      using Cons.prems unfolding cbo_inv_def by simp_all
    have v: "valid n comb"
      using ops d q by (rule queue_valid) simp
    note step = cbo_loop_Cons [OF ops v, of rest D S]
    show ?case
    proof (cases "cbo_skip c comb D")
      case True
      have "cbo_inv n sd c rest D S"
        using Cons.prems True by (rule inv_skip)
      then show ?thesis
        using Cons.IH step True by simp
    next
      case False
      have new: "c comb \<notin> fst ` set D"
        using False unfolding cbo_skip_def by simp
      have "cbo_inv n sd c (cbo_new n c comb @ rest) (D @ [(c comb, length S)]) (S @ [sd comb])"
        using ops Cons.prems False by (rule inv_accept)
      then have "\<exists>D' S'. cbo_loop h f [0..<n] (cbo_new n c comb @ rest)
          (D @ [(c comb, length S)]) (S @ [sd comb]) = Some (Inr (D', S')) \<and>
          cbo_inv n sd c [] D' S'"
        using measure_accept [OF ops new] by (intro less.hyps)
      then show ?thesis
        using step False by simp
    qed
  qed
qed

lemma cbo_inv_initial: "cbo_inv n sd c [[]] [] []"
  unfolding cbo_inv_def inv_dict_def inv_queue_def inv_cover_def inv_root_def by simp

lemma cover_step:
  assumes ops: "closure_ops n h f sd c" and d: "inv_dict sd c D S"
    and cv: "inv_cover n c [] D" and A: "A \<in> fst ` set D"
    and C: "c C = C" and sub: "set A \<subseteq> set C" and ne: "set A \<noteq> set C"
    and bound: "\<forall>x \<in> set C - set A. gen c A \<le> x"
  shows "\<exists>B \<in> fst ` set D. set B \<subseteq> set C \<and> (\<forall>x \<in> set C - set B. gen c B \<le> x) \<and>
           card (set C - set B) < card (set C - set A)"
proof -
  let ?j = "Min (set C - set A)"
  have nonempty: "set C - set A \<noteq> {}" using sub ne by blast
  have jin: "?j \<in> set C - set A"
    using nonempty by (intro Min_in) simp_all
  have jmin: "\<And>x. x \<in> set C - set A \<Longrightarrow> ?j \<le> x"
    by (rule Min_le) simp_all
  have vC: "valid n C" using ops_valid [OF ops, of C] C by simp
  have jn: "?j < n" using jin vC unfolding valid_def by blast
  have jA: "?j \<notin> set A" using jin by blast
  have jg: "gen c A \<le> ?j" using bound jin by blast
  have clA: "c A = A" by (rule keys_closed [OF d A])
  let ?B = "c (A @ [?j])"
  have "set (A @ [?j]) \<subseteq> set (c C)"
    unfolding C using sub jin by simp
  then have BC: "set ?B \<subseteq> set C"
    using ops_mono [OF ops, of "A @ [?j]" C] C by simp
  have can: "canon c A ?j"
    unfolding canon_def
  proof (intro ballI impI)
    fix x assume x: "x \<in> set ?B" "x < ?j"
    show "x \<in> set A"
    proof (rule ccontr)
      assume "x \<notin> set A"
      then have "x \<in> set C - set A" using x(1) BC by blast
      then have "?j \<le> x" by (rule jmin)
      then show False using x(2) by simp
    qed
  qed
  have "A @ [?j] \<in> set [] \<or> \<not> canon c A ?j \<or> ?B \<in> fst ` set D"
    using cv A jn jA jg unfolding inv_cover_def by blast
  then have Bk: "?B \<in> fst ` set D" using can by simp
  have vA: "valid n A" using ops_valid [OF ops, of A] clA by simp
  have vAj: "valid n (A @ [?j])" using vA jn unfolding valid_def by simp
  have AjB: "set (A @ [?j]) \<subseteq> set ?B" by (rule ops_ext [OF ops vAj])
  have gB: "gen c ?B = Suc ?j"
    using ops clA jn jA jg can by (rule gen_step)
  have b': "\<forall>x \<in> set C - set ?B. gen c ?B \<le> x"
  proof
    fix x assume x: "x \<in> set C - set ?B"
    then have "x \<in> set C - set A" using AjB by auto
    then have "?j \<le> x" by (rule jmin)
    moreover have "x \<noteq> ?j" using x AjB by auto
    ultimately show "gen c ?B \<le> x" unfolding gB by simp
  qed
  have "set C - set ?B \<subset> set C - set A"
    using AjB jin by auto
  then have "card (set C - set ?B) < card (set C - set A)"
    by (intro psubset_card_mono) simp_all
  then show ?thesis using Bk BC b' by blast
qed

lemma cover_complete:
  assumes ops: "closure_ops n h f sd c" and d: "inv_dict sd c D S"
    and cv: "inv_cover n c [] D" and C: "c C = C"
  shows "A \<in> fst ` set D \<Longrightarrow> set A \<subseteq> set C \<Longrightarrow> \<forall>x \<in> set C - set A. gen c A \<le> x \<Longrightarrow>
         C \<in> fst ` set D"
proof (induction "card (set C - set A)" arbitrary: A rule: less_induct)
  case less
  show ?case
  proof (cases "set A = set C")
    case True
    have "A = C"
      using ops keys_closed [OF d less.prems(1)] C True by (rule closed_eqI)
    then show ?thesis using less.prems(1) by simp
  next
    case False
    obtain B where B: "B \<in> fst ` set D" "set B \<subseteq> set C" "\<forall>x \<in> set C - set B. gen c B \<le> x"
      "card (set C - set B) < card (set C - set A)"
      using cover_step [OF ops d cv less.prems(1) C less.prems(2) False less.prems(3)] by blast
    show ?thesis
      using B(4,1,2,3) by (rule less.hyps)
  qed
qed

lemma final_complete:
  assumes ops: "closure_ops n h f sd c" and inv: "cbo_inv n sd c [] D S"
  shows "c xs \<in> fst ` set D"
proof -
  have d: "inv_dict sd c D S" and cv: "inv_cover n c [] D" and r: "inv_root c [] D"
    using inv unfolding cbo_inv_def by simp_all
  have root: "c [] \<in> fst ` set D" using r unfolding inv_root_def by simp
  have C: "c (c xs) = c xs" by (rule ops_idem [OF ops])
  have sub: "set (c []) \<subseteq> set (c xs)"
    by (rule ops_mono [OF ops]) simp
  have b: "\<forall>x \<in> set (c xs) - set (c []). gen c (c []) \<le> x"
    unfolding gen_root [OF ops] by simp
  show ?thesis
    using ops d cv C root sub b by (rule cover_complete)
qed

text \<open>The inversion of the dictionary gives back the keys in insertion order.\<close>

lemma dict_invert_aux:
  "distinct (map fst acc @ map snd d) \<Longrightarrow>
   foldl (\<lambda>acc (x_i, idx). dict_setitem acc idx x_i) acc d = acc @ map (\<lambda>(x_i, idx). (idx, x_i)) d"
proof (induction d arbitrary: acc)
  case Nil
  then show ?case by simp
next
  case (Cons p d)
  obtain x i where p: "p = (x, i)" by (cases p)
  have "i \<notin> fst ` set acc" using Cons.prems unfolding p by auto
  then have s: "dict_setitem acc i x = acc @ [(i, x)]" by (rule dict_setitem_new)
  have "distinct (map fst (acc @ [(i, x)]) @ map snd d)"
    using Cons.prems unfolding p by auto
  then have "foldl (\<lambda>acc (x_i, idx). dict_setitem acc idx x_i) (acc @ [(i, x)]) d =
      (acc @ [(i, x)]) @ map (\<lambda>(x_i, idx). (idx, x_i)) d"
    by (rule Cons.IH)
  then show ?case unfolding p by (simp add: s)
qed

lemma dict_invert_values:
  assumes "distinct (map snd d)"
  shows "map snd (dict_invert d) = map fst d"
proof -
  have "dict_invert d = map (\<lambda>(x_i, idx). (idx, x_i)) d"
    unfolding dict_invert_def using dict_invert_aux [of "[]" d] assms by simp
  then show ?thesis by (simp add: comp_def case_prod_beta)
qed

text \<open>What the loop returns from the initial state.\<close>

lemma cbo_loop_result:
  assumes ops: "closure_ops n h f sd c"
  shows "\<exists>D S. cbo_loop h f [0..<n] [[]] [] [] = Some (Inr (D, S)) \<and>
     map snd (dict_invert D) = map fst D \<and> distinct (map fst D) \<and>
     S = map sd (map fst D) \<and> set (map fst D) = range c"
proof -
  obtain D S where r: "cbo_loop h f [0..<n] [[]] [] [] = Some (Inr (D, S))"
    and inv: "cbo_inv n sd c [] D S"
    using cbo_loop_correct [OF ops cbo_inv_initial] by blast
  have d: "inv_dict sd c D S" using inv unfolding cbo_inv_def by simp
  have len: "length S = length D" and dist: "distinct (map fst D)"
    and idx: "map snd D = [0..<length D]"
    and el: "\<And>i. i < length D \<Longrightarrow> c (fst (D ! i)) = fst (D ! i) \<and> S ! i = sd (fst (D ! i))"
    using d unfolding inv_dict_def by simp_all
  have "distinct (map snd D)" unfolding idx by simp
  then have 1: "map snd (dict_invert D) = map fst D" by (rule dict_invert_values)
  have 2: "S = map sd (map fst D)"
    by (rule nth_equalityI) (simp_all add: len el)
  have 3: "set (map fst D) = range c"
  proof (rule equalityI; rule subsetI)
    fix k assume "k \<in> set (map fst D)"
    then have "k \<in> fst ` set D" by simp
    then have "c k = k" by (rule keys_closed [OF d])
    then show "k \<in> range c" by (metis rangeI)
  next
    fix k assume "k \<in> range c"
    then obtain xs where "k = c xs" by blast
    then show "k \<in> set (map fst D)"
      using final_complete [OF ops inv, of xs] by simp
  qed
  show ?thesis using r 1 dist 2 3 by blast
qed

section \<open>Close-by-One on a formal context\<close>

lemma ext_list_sorted: "sorted (ext_list ctx ms) \<and> distinct (ext_list ctx ms)"
  unfolding ext_list_def by (simp add: sorted_wrt_filter)

lemma int_list_sorted: "sorted (int_list ctx gs) \<and> distinct (int_list ctx gs)"
  unfolding int_list_def by (simp add: sorted_wrt_filter)

lemma ext_int_extensive:
  assumes "\<forall>g \<in> set gs. g < n_objects ctx"
  shows "set gs \<subseteq> set (ext_list ctx (int_list ctx gs))"
proof
  fix g assume g: "g \<in> set gs"
  then have "g < n_objects ctx" using assms by blast
  moreover have "\<forall>m \<in> set (int_list ctx gs). incident ctx g m"
    using g by (simp add: in_int_list)
  ultimately show "g \<in> set (ext_list ctx (int_list ctx gs))"
    by (simp add: in_ext_list)
qed

lemma int_ext_extensive:
  assumes "\<forall>m \<in> set ms. m < n_attributes ctx"
  shows "set ms \<subseteq> set (int_list ctx (ext_list ctx ms))"
proof
  fix m assume m: "m \<in> set ms"
  then have "m < n_attributes ctx" using assms by blast
  moreover have "\<forall>g \<in> set (ext_list ctx ms). incident ctx g m"
    using m by (simp add: in_ext_list)
  ultimately show "m \<in> set (int_list ctx (ext_list ctx ms))"
    by (simp add: in_int_list)
qed

lemma int_list_anti: "set xs \<subseteq> set ys \<Longrightarrow> set (int_list ctx ys) \<subseteq> set (int_list ctx xs)"
  by (auto simp: in_int_list subset_iff)

lemma ext_list_anti: "set xs \<subseteq> set ys \<Longrightarrow> set (ext_list ctx ys) \<subseteq> set (ext_list ctx xs)"
  by (auto simp: in_ext_list subset_iff)

lemma ext_int_mono:
  assumes "set xs \<subseteq> set (ext_list ctx (int_list ctx ys))"
  shows "set (ext_list ctx (int_list ctx xs)) \<subseteq> set (ext_list ctx (int_list ctx ys))"
proof (rule ext_list_anti, rule subsetI)
  fix m assume m: "m \<in> set (int_list ctx ys)"
  then have "m < n_attributes ctx" by (simp add: in_int_list)
  moreover have "\<forall>g \<in> set xs. incident ctx g m"
  proof
    fix g assume "g \<in> set xs"
    then have "g \<in> set (ext_list ctx (int_list ctx ys))" using assms by blast
    then show "incident ctx g m" using m by (simp add: in_ext_list)
  qed
  ultimately show "m \<in> set (int_list ctx xs)" by (simp add: in_int_list)
qed

lemma int_ext_mono:
  assumes "set xs \<subseteq> set (int_list ctx (ext_list ctx ys))"
  shows "set (int_list ctx (ext_list ctx xs)) \<subseteq> set (int_list ctx (ext_list ctx ys))"
proof (rule int_list_anti, rule subsetI)
  fix g assume g: "g \<in> set (ext_list ctx ys)"
  then have "g < n_objects ctx" by (simp add: in_ext_list)
  moreover have "\<forall>m \<in> set xs. incident ctx g m"
  proof
    fix m assume "m \<in> set xs"
    then have "m \<in> set (int_list ctx (ext_list ctx ys))" using assms by blast
    then show "incident ctx g m" using g by (simp add: in_int_list)
  qed
  ultimately show "g \<in> set (ext_list ctx xs)" by (simp add: in_ext_list)
qed

lemma closure_ops_extents:
  assumes wf: "wf_context ctx"
  shows "closure_ops (n_objects ctx) (extension_i ctx) (intention_i ctx)
           (int_list ctx) (\<lambda>xs. ext_list ctx (int_list ctx xs))"
  unfolding closure_ops_def
proof (intro conjI allI impI)
  fix xs assume "valid (n_objects ctx) xs"
  then have v: "\<forall>g \<in> set xs. g < n_objects ctx" unfolding valid_def .
  show "intention_i ctx xs = Inr (int_list ctx xs)"
    using wf v by (rule intention_i_ok)
  show "extension_i ctx (int_list ctx xs) = Inr (ext_list ctx (int_list ctx xs))"
    using wf by (rule extension_i_ok) (simp add: int_list_valid)
  show "set xs \<subseteq> set (ext_list ctx (int_list ctx xs))"
    using v by (rule ext_int_extensive)
  show "int_list ctx (ext_list ctx (int_list ctx xs)) = int_list ctx xs"
    using v by (rule int_ext_int)
next
  fix xs
  show "sorted (ext_list ctx (int_list ctx xs))" "distinct (ext_list ctx (int_list ctx xs))"
    using ext_list_sorted by blast+
  show "valid (n_objects ctx) (ext_list ctx (int_list ctx xs))"
    unfolding valid_def by (simp add: ext_list_valid)
next
  fix xs ys assume "set xs \<subseteq> set (ext_list ctx (int_list ctx ys))"
  then show "set (ext_list ctx (int_list ctx xs)) \<subseteq> set (ext_list ctx (int_list ctx ys))"
    by (rule ext_int_mono)
qed

lemma closure_ops_intents:
  assumes wf: "wf_context ctx"
  shows "closure_ops (n_attributes ctx) (intention_i ctx) (extension_i ctx)
           (ext_list ctx) (\<lambda>xs. int_list ctx (ext_list ctx xs))"
  unfolding closure_ops_def
proof (intro conjI allI impI)
  fix xs assume "valid (n_attributes ctx) xs"
  then have v: "\<forall>m \<in> set xs. m < n_attributes ctx" unfolding valid_def .
  show "extension_i ctx xs = Inr (ext_list ctx xs)"
    using wf v by (rule extension_i_ok)
  show "intention_i ctx (ext_list ctx xs) = Inr (int_list ctx (ext_list ctx xs))"
    using wf by (rule intention_i_ok) (simp add: ext_list_valid)
  show "set xs \<subseteq> set (int_list ctx (ext_list ctx xs))"
    using v by (rule int_ext_extensive)
  show "ext_list ctx (int_list ctx (ext_list ctx xs)) = ext_list ctx xs"
    using v by (rule ext_int_ext)
next
  fix xs
  show "sorted (int_list ctx (ext_list ctx xs))" "distinct (int_list ctx (ext_list ctx xs))"
    using int_list_sorted by blast+
  show "valid (n_attributes ctx) (int_list ctx (ext_list ctx xs))"
    unfolding valid_def by (simp add: int_list_valid)
next
  fix xs ys assume "set xs \<subseteq> set (int_list ctx (ext_list ctx ys))"
  then show "set (int_list ctx (ext_list ctx xs)) \<subseteq> set (int_list ctx (ext_list ctx ys))"
    by (rule int_ext_mono)
qed

text \<open>
  The pairs of index lists that \<open>close_by_one\<close> enumerates on a well-formed formal context,
  without optional arguments, in either direction.
\<close>

definition cbo_pairs :: "formal_context \<Rightarrow> bool \<Rightarrow> (nat list \<times> nat list) list \<Rightarrow> bool" where
  "cbo_pairs ctx iterate_extents ps \<longleftrightarrow>
     distinct (map fst ps) \<and> distinct (map snd ps) \<and>
     (\<forall>(e, i) \<in> set ps. ext_list ctx i = e \<and> int_list ctx e = i) \<and>
     (if iterate_extents
      then fst ` set ps = range (\<lambda>xs. ext_list ctx (int_list ctx xs))
      else snd ` set ps = range (\<lambda>xs. int_list ctx (ext_list ctx xs)))"

lemma zip_map_right: "zip xs (map f xs) = map (\<lambda>x. (x, f x)) xs"
  by (induction xs) simp_all

lemma zip_map_left: "zip (map f xs) xs = map (\<lambda>x. (f x, x)) xs"
  by (induction xs) simp_all

lemma pairs_extents:
  assumes dist: "distinct K"
    and all: "set K = range (\<lambda>xs. ext_list ctx (int_list ctx xs))"
  shows "cbo_pairs ctx True (zip K (map (int_list ctx) K))"
proof -
  have z: "zip K (map (int_list ctx) K) = map (\<lambda>e. (e, int_list ctx e)) K"
    by (rule zip_map_right)
  have closed: "ext_list ctx (int_list ctx e) = e" if "e \<in> set K" for e
  proof -
    from that all obtain xs where e: "e = ext_list ctx (int_list ctx xs)" by auto
    have "\<forall>m \<in> set (int_list ctx xs). m < n_attributes ctx"
      by (simp add: int_list_valid)
    then show ?thesis unfolding e by (rule ext_int_ext)
  qed
  have f: "map fst (map (\<lambda>e. (e, int_list ctx e)) K) = K"
    by (simp add: comp_def)
  have s: "map snd (map (\<lambda>e. (e, int_list ctx e)) K) = map (int_list ctx) K"
    by (simp add: comp_def)
  have "inj_on (int_list ctx) (set K)"
    by (rule inj_on_inverseI [where g = "ext_list ctx"]) (rule closed)
  then have d2: "distinct (map (int_list ctx) K)"
    using dist by (simp add: distinct_map)
  have 3: "\<forall>(e, i) \<in> set (map (\<lambda>e. (e, int_list ctx e)) K). ext_list ctx i = e \<and> int_list ctx e = i"
    using closed by auto
  have 4: "fst ` set (map (\<lambda>e. (e, int_list ctx e)) K) = range (\<lambda>xs. ext_list ctx (int_list ctx xs))"
    using all by (simp add: image_image)
  show ?thesis
    unfolding cbo_pairs_def z f s using dist d2 3 4 by simp
qed

lemma pairs_intents:
  assumes dist: "distinct K"
    and all: "set K = range (\<lambda>xs. int_list ctx (ext_list ctx xs))"
  shows "cbo_pairs ctx False (zip (map (ext_list ctx) K) K)"
proof -
  have z: "zip (map (ext_list ctx) K) K = map (\<lambda>i. (ext_list ctx i, i)) K"
    by (rule zip_map_left)
  have closed: "int_list ctx (ext_list ctx i) = i" if "i \<in> set K" for i
  proof -
    from that all obtain xs where i: "i = int_list ctx (ext_list ctx xs)" by auto
    have "\<forall>g \<in> set (ext_list ctx xs). g < n_objects ctx"
      by (simp add: ext_list_valid)
    then show ?thesis unfolding i by (rule int_ext_int)
  qed
  have f: "map snd (map (\<lambda>i. (ext_list ctx i, i)) K) = K"
    by (simp add: comp_def)
  have s: "map fst (map (\<lambda>i. (ext_list ctx i, i)) K) = map (ext_list ctx) K"
    by (simp add: comp_def)
  have "inj_on (ext_list ctx) (set K)"
    by (rule inj_on_inverseI [where g = "int_list ctx"]) (rule closed)
  then have d2: "distinct (map (ext_list ctx) K)"
    using dist by (simp add: distinct_map)
  have 3: "\<forall>(e, i) \<in> set (map (\<lambda>i. (ext_list ctx i, i)) K). ext_list ctx i = e \<and> int_list ctx e = i"
    using closed by auto
  have 4: "snd ` set (map (\<lambda>i. (ext_list ctx i, i)) K) = range (\<lambda>xs. int_list ctx (ext_list ctx xs))"
    using all by (simp add: image_image)
  show ?thesis
    unfolding cbo_pairs_def z f s using dist d2 3 4 by simp
qed

lemma cbo_loop_extents:
  assumes wf: "wf_context ctx"
  shows "\<exists>D S. cbo_loop (extension_i ctx) (intention_i ctx) [0..<n_objects ctx] [[]] [] [] =
           Some (Inr (D, S)) \<and> length (map snd (dict_invert D)) = length S \<and>
           cbo_pairs ctx True (zip (map snd (dict_invert D)) S)"
proof -
  obtain D S where r: "cbo_loop (extension_i ctx) (intention_i ctx) [0..<n_objects ctx] [[]] [] [] =
           Some (Inr (D, S))"
    and k: "map snd (dict_invert D) = map fst D" and dist: "distinct (map fst D)"
    and S: "S = map (int_list ctx) (map fst D)"
    and all: "set (map fst D) = range (\<lambda>xs. ext_list ctx (int_list ctx xs))"
    using cbo_loop_result [OF closure_ops_extents [OF wf]] by blast
  have "cbo_pairs ctx True (zip (map snd (dict_invert D)) S)"
    unfolding k S using dist all by (rule pairs_extents)
  moreover have "length (map snd (dict_invert D)) = length S"
    unfolding k S by simp
  ultimately show ?thesis using r by blast
qed

lemma cbo_loop_intents:
  assumes wf: "wf_context ctx"
  shows "\<exists>D S. cbo_loop (intention_i ctx) (extension_i ctx) [0..<n_attributes ctx] [[]] [] [] =
           Some (Inr (D, S)) \<and> length (map snd (dict_invert D)) = length S \<and>
           cbo_pairs ctx False (zip S (map snd (dict_invert D)))"
proof -
  obtain D S where r: "cbo_loop (intention_i ctx) (extension_i ctx) [0..<n_attributes ctx] [[]] [] [] =
           Some (Inr (D, S))"
    and k: "map snd (dict_invert D) = map fst D" and dist: "distinct (map fst D)"
    and S: "S = map (ext_list ctx) (map fst D)"
    and all: "set (map fst D) = range (\<lambda>xs. int_list ctx (ext_list ctx xs))"
    using cbo_loop_result [OF closure_ops_intents [OF wf]] by blast
  have "cbo_pairs ctx False (zip S (map snd (dict_invert D)))"
    unfolding k S using dist all by (rule pairs_intents)
  moreover have "length (map snd (dict_invert D)) = length S"
    unfolding k S by simp
  ultimately show ?thesis using r by blast
qed

lemma cbo_pairsD:
  assumes "cbo_pairs ctx b ps" "(e, i) \<in> set ps"
  shows "ext_list ctx i = e \<and> int_list ctx e = i"
proof -
  have "\<forall>(e, i) \<in> set ps. ext_list ctx i = e \<and> int_list ctx e = i"
    using assms(1) unfolding cbo_pairs_def by (elim conjE)
  then show ?thesis using assms(2) by fast
qed

lemma cbo_pairs_fst:
  assumes "cbo_pairs ctx True ps"
  shows "fst ` set ps = range (\<lambda>xs. ext_list ctx (int_list ctx xs))"
  using assms unfolding cbo_pairs_def by simp

lemma cbo_pairs_snd:
  assumes "cbo_pairs ctx False ps"
  shows "snd ` set ps = range (\<lambda>xs. int_list ctx (ext_list ctx xs))"
  using assms unfolding cbo_pairs_def by simp

lemma cbo_pairs_distinct:
  assumes "cbo_pairs ctx b ps"
  shows "distinct (map fst ps) \<and> distinct (map snd ps)"
  using assms unfolding cbo_pairs_def by (elim conjE) (intro conjI)

lemma cbo_pairs_set:
  assumes "cbo_pairs ctx b ps"
  shows "set ps = {(e, i). ext_list ctx i = e \<and> int_list ctx e = i}"
proof (rule equalityI; rule subsetI)
  fix p assume m: "p \<in> set ps"
  obtain e i where p: "p = (e, i)" by (cases p)
  show "p \<in> {(e, i). ext_list ctx i = e \<and> int_list ctx e = i}"
    using cbo_pairsD [OF assms, of e i] m unfolding p by simp
next
  fix p assume "p \<in> {(e, i). ext_list ctx i = e \<and> int_list ctx e = i}"
  then obtain e i where p: "p = (e, i)" and ei: "ext_list ctx i = e" "int_list ctx e = i"
    by blast
  show "p \<in> set ps"
  proof (cases b)
    case True
    have "e = ext_list ctx (int_list ctx e)" using ei by simp
    then have "e \<in> range (\<lambda>xs. ext_list ctx (int_list ctx xs))" by (rule range_eqI)
    moreover have "cbo_pairs ctx True ps" using assms True by simp
    ultimately have "e \<in> fst ` set ps" by (simp only: cbo_pairs_fst)
    then obtain i' where m: "(e, i') \<in> set ps" by force
    then have "i' = i" using cbo_pairsD [OF assms m] ei by simp
    then show ?thesis using m p by simp
  next
    case False
    have "i = int_list ctx (ext_list ctx i)" using ei by simp
    then have "i \<in> range (\<lambda>xs. int_list ctx (ext_list ctx xs))" by (rule range_eqI)
    moreover have "cbo_pairs ctx False ps" using assms False by simp
    ultimately have "i \<in> snd ` set ps" by (simp only: cbo_pairs_snd)
    then obtain e' where m: "(e', i) \<in> set ps" by force
    then have "e' = e" using cbo_pairsD [OF assms m] ei by simp
    then show ?thesis using m p by simp
  qed
qed

text \<open>The concept that \<open>make_concepts\<close> builds from a pair of index lists.\<close>

definition concept_of :: "string list \<Rightarrow> string list \<Rightarrow> int \<Rightarrow> nat list \<times> nat list \<Rightarrow> formal_concept" where
  "concept_of obj_names attr_names ctx_hash p =
     \<lparr>extent_i = set (fst p), extent = set (map (\<lambda>g. obj_names ! g) (fst p)),
      intent_i = set (snd p), intent = set (map (\<lambda>m. attr_names ! m) (snd p)),
      measures = [], context_hash = Some ctx_hash, is_monotone = False\<rparr>"

lemma make_concepts_ok:
  assumes "\<forall>(e, i) \<in> set ps. (\<forall>g \<in> set e. g < length ons) \<and> (\<forall>m \<in> set i. m < length ans)"
  shows "make_concepts ons ans h ps = Inr (map (concept_of ons ans h) ps)"
  using assms
proof (induction ps)
  case Nil
  then show ?case by simp
next
  case (Cons p ps)
  obtain e i where p: "p = (e, i)" by (cases p)
  have e: "items_at ons e = Inr (map (\<lambda>g. ons ! g) e)"
    using Cons.prems unfolding p by (intro items_at_ok) simp
  have i: "items_at ans i = Inr (map (\<lambda>m. ans ! m) i)"
    using Cons.prems unfolding p by (intro items_at_ok) simp
  have r: "make_concepts ons ans h ps = Inr (map (concept_of ons ans h) ps)"
    using Cons.prems by (intro Cons.IH) simp
  show ?case unfolding p by (simp add: e i r concept_of_def)
qed

lemma cbo_pairs_names:
  assumes wf: "wf_context ctx" and ps: "cbo_pairs ctx b ps"
  shows "\<forall>(e, i) \<in> set ps. (\<forall>g \<in> set e. g < length (object_names ctx)) \<and>
           (\<forall>m \<in> set i. m < length (attribute_names ctx))"
proof -
  have lo: "length (object_names ctx) = n_objects ctx"
    and la: "length (attribute_names ctx) = n_attributes ctx"
    using wf unfolding wf_context_def n_objects_def n_attributes_def by blast+
  have "(\<forall>g \<in> set e. g < n_objects ctx) \<and> (\<forall>m \<in> set i. m < n_attributes ctx)"
    if "(e, i) \<in> set ps" for e i
  proof -
    have ei: "ext_list ctx i = e" "int_list ctx e = i"
      using cbo_pairsD [OF ps that] by simp_all
    have "\<forall>g \<in> set (ext_list ctx i). g < n_objects ctx"
      by (simp add: ext_list_valid)
    moreover have "\<forall>m \<in> set (int_list ctx e). m < n_attributes ctx"
      by (simp add: int_list_valid)
    ultimately show ?thesis unfolding ei by simp
  qed
  then show ?thesis unfolding lo la by fast
qed

lemma close_by_one_result:
  assumes wf: "wf_context ctx"
  shows "\<exists>ps. cbo_pairs ctx b ps \<and>
     close_by_one hf (FormalContext ctx) False (Some b) None None =
       Some (Inr (Data (map fst ps) (map snd ps))) \<and>
     close_by_one hf (FormalContext ctx) True (Some b) None None =
       Some (Inr (Concepts (map (concept_of (object_names ctx) (attribute_names ctx) (hf ctx)) ps)))"
proof (cases b)
  case True
  obtain D S where r: "cbo_loop (extension_i ctx) (intention_i ctx) [0..<n_objects ctx] [[]] [] [] =
           Some (Inr (D, S))"
    and len: "length (map snd (dict_invert D)) = length S"
    and ps: "cbo_pairs ctx True (zip (map snd (dict_invert D)) S)"
    using cbo_loop_extents [OF wf] by blast
  let ?ps = "zip (map snd (dict_invert D)) S"
  have mc: "make_concepts (object_names ctx) (attribute_names ctx) (hf ctx) ?ps =
      Inr (map (concept_of (object_names ctx) (attribute_names ctx) (hf ctx)) ?ps)"
    by (rule make_concepts_ok) (rule cbo_pairs_names [OF wf ps])
  have f: "map fst ?ps = map snd (dict_invert D)" and s: "map snd ?ps = S"
    using len by simp_all
  have 1: "close_by_one hf (FormalContext ctx) False (Some b) None None =
       Some (Inr (Data (map fst ?ps) (map snd ?ps)))"
    unfolding f s unfolding close_by_one_def by (simp add: True r)
  have 2: "close_by_one hf (FormalContext ctx) True (Some b) None None =
       Some (Inr (Concepts (map (concept_of (object_names ctx) (attribute_names ctx) (hf ctx)) ?ps)))"
    unfolding close_by_one_def by (simp add: True r mc)
  have ps': "cbo_pairs ctx b ?ps" using ps True by simp
  show ?thesis by (intro exI [of _ ?ps] conjI ps' 1 2)
next
  case False
  obtain D S where r: "cbo_loop (intention_i ctx) (extension_i ctx) [0..<n_attributes ctx] [[]] [] [] =
           Some (Inr (D, S))"
    and len: "length (map snd (dict_invert D)) = length S"
    and ps: "cbo_pairs ctx False (zip S (map snd (dict_invert D)))"
    using cbo_loop_intents [OF wf] by blast
  let ?ps = "zip S (map snd (dict_invert D))"
  have mc: "make_concepts (object_names ctx) (attribute_names ctx) (hf ctx) ?ps =
      Inr (map (concept_of (object_names ctx) (attribute_names ctx) (hf ctx)) ?ps)"
    by (rule make_concepts_ok) (rule cbo_pairs_names [OF wf ps])
  have f: "map snd ?ps = map snd (dict_invert D)" and s: "map fst ?ps = S"
    using len by simp_all
  have 1: "close_by_one hf (FormalContext ctx) False (Some b) None None =
       Some (Inr (Data (map fst ?ps) (map snd ?ps)))"
    unfolding f s unfolding close_by_one_def by (simp add: False r)
  have 2: "close_by_one hf (FormalContext ctx) True (Some b) None None =
       Some (Inr (Concepts (map (concept_of (object_names ctx) (attribute_names ctx) (hf ctx)) ?ps)))"
    unfolding close_by_one_def by (simp add: False r mc)
  have ps': "cbo_pairs ctx b ?ps" using ps False by simp
  show ?thesis by (intro exI [of _ ?ps] conjI ps' 1 2)
qed

lemma close_by_one_default:
  "close_by_one hf (FormalContext ctx) output_as_concepts None None None =
   close_by_one hf (FormalContext ctx) output_as_concepts (Some True) None None"
  unfolding close_by_one_def by simp

lemma cbo_pairs_sets_distinct:
  assumes "cbo_pairs ctx b ps"
  shows "distinct (map (\<lambda>p. set (fst p)) ps) \<and> distinct (map (\<lambda>p. set (snd p)) ps)"
proof -
  have inj1: "inj_on (\<lambda>p. set (fst p)) (set ps)"
  proof (rule inj_onI)
    fix p q assume p: "p \<in> set ps" and q: "q \<in> set ps" and e: "set (fst p) = set (fst q)"
    have pp: "ext_list ctx (snd p) = fst p \<and> int_list ctx (fst p) = snd p"
      using cbo_pairsD [OF assms, of "fst p" "snd p"] p by simp
    have qq: "ext_list ctx (snd q) = fst q \<and> int_list ctx (fst q) = snd q"
      using cbo_pairsD [OF assms, of "fst q" "snd q"] q by simp
    have "sorted (fst p) \<and> distinct (fst p)" "sorted (fst q) \<and> distinct (fst q)"
      using ext_list_sorted [of ctx "snd p"] ext_list_sorted [of ctx "snd q"] pp qq by simp_all
    then have f: "fst p = fst q"
      using e by (simp add: sorted_distinct_set_unique)
    then have "snd p = snd q" using pp qq by metis
    then show "p = q" using f by (simp add: prod_eq_iff)
  qed
  have inj2: "inj_on (\<lambda>p. set (snd p)) (set ps)"
  proof (rule inj_onI)
    fix p q assume p: "p \<in> set ps" and q: "q \<in> set ps" and e: "set (snd p) = set (snd q)"
    have pp: "ext_list ctx (snd p) = fst p \<and> int_list ctx (fst p) = snd p"
      using cbo_pairsD [OF assms, of "fst p" "snd p"] p by simp
    have qq: "ext_list ctx (snd q) = fst q \<and> int_list ctx (fst q) = snd q"
      using cbo_pairsD [OF assms, of "fst q" "snd q"] q by simp
    have "sorted (snd p) \<and> distinct (snd p)" "sorted (snd q) \<and> distinct (snd q)"
      using int_list_sorted [of ctx "fst p"] int_list_sorted [of ctx "fst q"] pp qq by simp_all
    then have f: "snd p = snd q"
      using e by (simp add: sorted_distinct_set_unique)
    then have "fst p = fst q" using pp qq by metis
    then show "p = q" using f by (simp add: prod_eq_iff)
  qed
  have "distinct ps"
    using cbo_pairs_distinct [OF assms] by (simp add: distinct_map)
  then show ?thesis
    using inj1 inj2 by (simp add: distinct_map)
qed

lemma concept_of_sel:
  "extent_i (concept_of ons ans h p) = set (fst p)"
  "intent_i (concept_of ons ans h p) = set (snd p)"
  unfolding concept_of_def by simp_all

section \<open>Close-by-One from given combinations\<close>

text \<open>
  \<open>close_by_one\<close> with \<open>initial_combinations\<close> and \<open>iter_elements_to_check\<close>, as \<open>sofia_binary\<close>
  calls it.  The combinations and the elements are arbitrary lists of numbers.  When a
  closure operator of a well-formed context returns, its argument held valid indexes (or
  the context has no attribute), and its result is the derivation of the argument.

  \<open>sofia_binary\<close> passes the combinations as frozen sets.  On a frozen set \<^verbatim>\<open>comb_i[-1]\<close>
  raises \<open>TypeError\<close>.  The loop evaluates \<^verbatim>\<open>comb_i[-1]\<close> only where \<open>comb_i\<close> is not empty
  and either \<open>iterset_i_new\<close> is not empty or some \<open>g_i\<close> is not in \<open>iterset_i\<close>; wherever it
  is not evaluated, the value of the condition does not depend on it.  So a call on frozen
  sets that returns runs as the model does on the lists of their members.
\<close>

lemma items_at_Inr:
  "items_at g_ms ms = Inr bs \<Longrightarrow> \<forall>m \<in> set ms. m < length g_ms"
  by (induction ms arbitrary: bs) (auto split: if_splits sum.splits)

lemma extension_i_Inr:
  assumes wf: "wf_context ctx" and r: "extension_i ctx ms = Inr G"
  shows "valid (n_attributes ctx) ms \<and> G = ext_list ctx ms"
proof -
  obtain row0 rest where d: "data ctx = row0 # rest"
    using wf unfolding wf_context_def by (cases "data ctx") blast+
  have "extension_rows 0 (row0 # rest) ms = Inr G"
    using r unfolding extension_i_def d .
  then obtain bs where "items_at row0 ms = Inr bs"
    by (auto split: sum.splits)
  then have "\<forall>m \<in> set ms. m < length row0"
    by (rule items_at_Inr)
  then have v: "\<forall>m \<in> set ms. m < n_attributes ctx"
    unfolding n_attributes_def d by simp
  have "extension_i ctx ms = Inr (ext_list ctx ms)"
    using wf v by (rule extension_i_ok)
  then show ?thesis using r v unfolding valid_def by simp
qed

lemma column_values_Inr:
  "column_values d m gs = Inr bs \<Longrightarrow> \<forall>g \<in> set gs. g < length d"
  by (induction gs arbitrary: bs) (auto split: if_splits sum.splits)

lemma intention_i_Inr:
  assumes wf: "wf_context ctx" and r: "intention_i ctx gs = Inr M"
  shows "M = int_list ctx gs \<and> (n_attributes ctx = 0 \<or> valid (n_objects ctx) gs)"
proof -
  obtain row0 rest where d: "data ctx = row0 # rest"
    using wf unfolding wf_context_def by (cases "data ctx") blast+
  have n: "n_attributes ctx = length row0"
    unfolding n_attributes_def d by simp
  have r': "intention_cols (data ctx) [0..<length row0] gs = Inr M"
    using r unfolding intention_i_def d by simp
  show ?thesis
  proof (cases "length row0 = 0")
    case True
    have "M = []" using r' True by simp
    moreover have "int_list ctx gs = []" unfolding int_list_def n True by simp
    ultimately show ?thesis using n True by simp
  next
    case False
    then have "[0..<length row0] = 0 # [1..<length row0]"
      by (simp add: upt_conv_Cons)
    then have "intention_cols (data ctx) (0 # [1..<length row0]) gs = Inr M"
      using r' by simp
    then obtain bs where "column_values (data ctx) 0 gs = Inr bs"
      by (auto split: sum.splits)
    then have "\<forall>g \<in> set gs. g < length (data ctx)"
      by (rule column_values_Inr)
    then have v: "\<forall>g \<in> set gs. g < n_objects ctx"
      unfolding n_objects_def .
    have "intention_i ctx gs = Inr (int_list ctx gs)"
      using wf v by (rule intention_i_ok)
    then show ?thesis using r v unfolding valid_def by simp
  qed
qed

text \<open>
  The loop for operators of which only this is known: when both calls return, the closed
  list is among the finitely many lists of \<open>universe n\<close> and forms with the side set a pair
  that satisfies \<open>P\<close>.
\<close>

definition ops_sound ::
  "nat \<Rightarrow> ('s \<Rightarrow> error + nat list) \<Rightarrow> (nat list \<Rightarrow> error + 's) \<Rightarrow> (nat list \<Rightarrow> 's \<Rightarrow> bool) \<Rightarrow> bool" where
  "ops_sound n iterset_fnc sideset_fnc P \<longleftrightarrow>
     (\<forall>comb s i. sideset_fnc comb = Inr s \<and> iterset_fnc s = Inr i \<longrightarrow> i \<in> universe n \<and> P i s)"

definition pairs_inv :: "(nat list \<Rightarrow> 's \<Rightarrow> bool) \<Rightarrow> (nat list \<times> nat) list \<Rightarrow> 's list \<Rightarrow> bool" where
  "pairs_inv P D S \<longleftrightarrow>
     length S = length D \<and> map snd D = [0..<length D] \<and> (\<forall>k < length D. P (fst (D ! k)) (S ! k))"

lemma cbo_loop_raise:
  "f comb = Inl e \<Longrightarrow> cbo_loop h f es (comb # rest) D S = Some (Inl e)"
  "f comb = Inr s \<Longrightarrow> h s = Inl e \<Longrightarrow> cbo_loop h f es (comb # rest) D S = Some (Inl e)"
  by (subst cbo_loop.simps, simp)+

lemma cbo_loop_step:
  assumes "f comb = Inr s" "h s = Inr i"
  shows "cbo_loop h f es (comb # rest) D S =
     (if (comb \<noteq> [] \<and> (\<exists>g \<in> set i - set comb. g < last comb)) \<or> i \<in> fst ` set D
      then cbo_loop h f es rest D S
      else cbo_loop h f es
             (map (\<lambda>g. i @ [g]) (filter (\<lambda>g. g \<notin> set i \<and> (comb = [] \<or> last comb < g)) es) @ rest)
             (D @ [(i, length S)]) (S @ [s]))"
proof -
  let ?skip = "(comb \<noteq> [] \<and> (\<exists>g \<in> set i - set comb. g < last comb)) \<or> i \<in> fst ` set D"
  have skip: "((comb \<noteq> [] \<and> list_ex (\<lambda>g_i. g_i < last comb) (sorted_set_diff i comb))
      \<or> dict_contains D i) = ?skip"
    unfolding list_ex_iff set_sorted_set_diff dict_contains_def by auto
  show ?thesis
  proof (cases ?skip)
    case True
    show ?thesis
      by (subst cbo_loop.simps) (simp add: assms skip True Let_def del: set_map)
  next
    case False
    then have "i \<notin> fst ` set D" by simp
    then have d: "dict_setitem D i (length S) = D @ [(i, length S)]"
      by (rule dict_setitem_new)
    show ?thesis
      by (subst cbo_loop.simps) (simp add: assms skip False Let_def d del: set_map)
  qed
qed

lemma pairs_inv_accept:
  assumes "pairs_inv P D S" "P i s"
  shows "pairs_inv P (D @ [(i, length S)]) (S @ [s])"
proof -
  have len: "length S = length D" and idx: "map snd D = [0..<length D]"
    and el: "\<And>k. k < length D \<Longrightarrow> P (fst (D ! k)) (S ! k)"
    using assms(1) unfolding pairs_inv_def by simp_all
  have "P (fst ((D @ [(i, length S)]) ! k)) ((S @ [s]) ! k)" if "k < length (D @ [(i, length S)])" for k
  proof (cases "k < length D")
    case True
    then show ?thesis using el [OF True] len by (simp add: nth_append)
  next
    case False
    then have "k = length D" using that by simp
    then show ?thesis using assms(2) len by (simp add: nth_append)
  qed
  then show ?thesis
    unfolding pairs_inv_def using len idx by simp
qed

lemma measure_new_key:
  assumes "i \<in> universe n" "i \<notin> fst ` set D"
  shows "card (universe n - fst ` set (D @ [(i, k)])) < card (universe n - fst ` set D)"
proof -
  have e: "universe n - fst ` set (D @ [(i, k)]) = (universe n - fst ` set D) - {i}"
    by auto
  have m: "i \<in> universe n - fst ` set D"
    using assms by simp
  have fin: "finite (universe n - fst ` set D)"
    using finite_universe by simp
  show ?thesis
    unfolding e using fin m by (rule card_Diff1_less)
qed

lemma cbo_loop_seeded:
  assumes ops: "closure_ops n h f sd c" and snd: "ops_sound n h f P"
  shows "pairs_inv P D S \<Longrightarrow>
    \<exists>r. cbo_loop h f es Q D S = Some r \<and>
        (\<forall>D' S'. r = Inr (D', S') \<longrightarrow> pairs_inv P D' S') \<and>
        ((\<forall>comb \<in> set Q. valid n comb) \<and> valid n es \<longrightarrow> (\<exists>D' S'. r = Inr (D', S')))"
proof (induction "card (universe n - fst ` set D)" arbitrary: Q D S rule: less_induct)
  case less
  show ?case using less.prems
  proof (induction Q)
    case Nil
    then show ?case by (simp add: cbo_loop_Nil)
  next
    case (Cons comb rest)
    note inv = Cons.prems
    show ?case
    proof (cases "f comb")
      case (Inl e)
      have nv: "\<not> valid n comb"
        using ops_calls [OF ops, of comb] Inl by auto
      have "cbo_loop h f es (comb # rest) D S = Some (Inl e)"
        using Inl by (rule cbo_loop_raise(1))
      then show ?thesis using nv by simp
    next
      case (Inr s)
      note fs = Inr
      show ?thesis
      proof (cases "h s")
        case (Inl e)
        have nv: "\<not> valid n comb"
          using ops_calls [OF ops, of comb] fs Inl by auto
        have "cbo_loop h f es (comb # rest) D S = Some (Inl e)"
          using fs Inl by (rule cbo_loop_raise(2))
        then show ?thesis using nv by simp
      next
        case (Inr i)
        note hs = Inr
        have iu: "i \<in> universe n" and P: "P i s"
          using snd fs hs unfolding ops_sound_def by blast+
        note step = cbo_loop_step [where f = f and h = h and comb = comb and s = s and i = i
            and es = es and rest = rest and D = D and S = S, OF fs hs]
        let ?skip = "(comb \<noteq> [] \<and> (\<exists>g \<in> set i - set comb. g < last comb)) \<or> i \<in> fst ` set D"
        show ?thesis
        proof (cases ?skip)
          case True
          have e: "cbo_loop h f es (comb # rest) D S = cbo_loop h f es rest D S"
            using step True by simp
          obtain r where r: "cbo_loop h f es rest D S = Some r"
            "\<forall>D' S'. r = Inr (D', S') \<longrightarrow> pairs_inv P D' S'"
            "(\<forall>comb \<in> set rest. valid n comb) \<and> valid n es \<longrightarrow> (\<exists>D' S'. r = Inr (D', S'))"
            using Cons.IH [OF inv] by blast
          show ?thesis
            unfolding e using r by simp
        next
          case False
          let ?new = "map (\<lambda>g. i @ [g]) (filter (\<lambda>g. g \<notin> set i \<and> (comb = [] \<or> last comb < g)) es)"
          have e: "cbo_loop h f es (comb # rest) D S =
              cbo_loop h f es (?new @ rest) (D @ [(i, length S)]) (S @ [s])"
            using step False by simp
          have new: "i \<notin> fst ` set D" using False by simp
          have inv': "pairs_inv P (D @ [(i, length S)]) (S @ [s])"
            using inv P by (rule pairs_inv_accept)
          obtain r where r: "cbo_loop h f es (?new @ rest) (D @ [(i, length S)]) (S @ [s]) = Some r"
            "\<forall>D' S'. r = Inr (D', S') \<longrightarrow> pairs_inv P D' S'"
            "(\<forall>comb \<in> set (?new @ rest). valid n comb) \<and> valid n es \<longrightarrow> (\<exists>D' S'. r = Inr (D', S'))"
            using less.hyps [OF measure_new_key [OF iu new] inv'] by blast
          have "\<exists>D' S'. r = Inr (D', S')"
            if v: "(\<forall>comb \<in> set (comb # rest). valid n comb) \<and> valid n es"
          proof -
            have vc: "valid n comb" using v by simp
            have "h (sd comb) = Inr (c comb)" "f comb = Inr (sd comb)"
              using ops_calls [OF ops vc] by simp_all
            then have "i = c comb" using fs hs by simp
            then have vi: "valid n i" using ops_valid [OF ops, of comb] by simp
            have "\<forall>x \<in> set ?new. valid n x"
              using vi v unfolding valid_def by auto
            then have "(\<forall>comb \<in> set (?new @ rest). valid n comb) \<and> valid n es"
              using v by auto
            then show ?thesis using r(3) by blast
          qed
          then show ?thesis
            unfolding e using r(1,2) by simp
        qed
      qed
    qed
  qed
qed


lemma pairs_inv_zip:
  assumes "pairs_inv P D S"
  shows "map snd (dict_invert D) = map fst D" "length S = length D"
    "\<And>i s. (i, s) \<in> set (zip (map fst D) S) \<Longrightarrow> P i s"
proof -
  have len: "length S = length D" and idx: "map snd D = [0..<length D]"
    and el: "\<And>k. k < length D \<Longrightarrow> P (fst (D ! k)) (S ! k)"
    using assms unfolding pairs_inv_def by simp_all
  have "distinct (map snd D)" unfolding idx by simp
  then show "map snd (dict_invert D) = map fst D" by (rule dict_invert_values)
  show "length S = length D" by (rule len)
  fix i s assume "(i, s) \<in> set (zip (map fst D) S)"
  then obtain k where k: "k < length D" "map fst D ! k = i" "S ! k = s"
    unfolding in_set_zip using len by auto
  show "P i s" using el [OF k(1)] k by simp
qed

text \<open>The two directions on a well-formed context.\<close>

lemma ops_sound_extents:
  assumes wf: "wf_context ctx"
  shows "ops_sound (n_objects ctx) (extension_i ctx) (intention_i ctx)
           (\<lambda>i s. ext_list ctx s = i \<and> int_list ctx i = s)"
  unfolding ops_sound_def
proof (intro allI impI)
  fix comb s i
  assume a: "intention_i ctx comb = Inr s \<and> extension_i ctx s = Inr i"
  have s: "s = int_list ctx comb" and v: "n_attributes ctx = 0 \<or> valid (n_objects ctx) comb"
    using intention_i_Inr [OF wf, of comb s] a by simp_all
  have i: "i = ext_list ctx s"
    using extension_i_Inr [OF wf, of s i] a by simp
  have "(\<lambda>xs. ext_list ctx (int_list ctx xs)) comb \<in> universe (n_objects ctx)"
    using closure_ops_extents [OF wf] by (rule closed_in_universe)
  then have u: "i \<in> universe (n_objects ctx)"
    unfolding i s by simp
  have "int_list ctx (ext_list ctx (int_list ctx comb)) = int_list ctx comb"
  proof (cases "n_attributes ctx = 0")
    case True
    then show ?thesis unfolding int_list_def by simp
  next
    case False
    then have "\<forall>g \<in> set comb. g < n_objects ctx" using v unfolding valid_def by simp
    then show ?thesis by (rule int_ext_int)
  qed
  then have "int_list ctx i = s" unfolding i s .
  then show "i \<in> universe (n_objects ctx) \<and> ext_list ctx s = i \<and> int_list ctx i = s"
    using u i by simp
qed

lemma ops_sound_intents:
  assumes wf: "wf_context ctx"
  shows "ops_sound (n_attributes ctx) (intention_i ctx) (extension_i ctx)
           (\<lambda>i s. ext_list ctx i = s \<and> int_list ctx s = i)"
  unfolding ops_sound_def
proof (intro allI impI)
  fix comb s i
  assume a: "extension_i ctx comb = Inr s \<and> intention_i ctx s = Inr i"
  have s: "s = ext_list ctx comb" and v: "valid (n_attributes ctx) comb"
    using extension_i_Inr [OF wf, of comb s] a by simp_all
  have i: "i = int_list ctx s"
    using intention_i_Inr [OF wf, of s i] a by simp
  have "(\<lambda>xs. int_list ctx (ext_list ctx xs)) comb \<in> universe (n_attributes ctx)"
    using closure_ops_intents [OF wf] by (rule closed_in_universe)
  then have u: "i \<in> universe (n_attributes ctx)"
    unfolding i s by simp
  have "\<forall>m \<in> set comb. m < n_attributes ctx" using v unfolding valid_def .
  then have "ext_list ctx (int_list ctx (ext_list ctx comb)) = ext_list ctx comb"
    by (rule ext_int_ext)
  then have "ext_list ctx i = s" unfolding i s .
  then show "i \<in> universe (n_attributes ctx) \<and> ext_list ctx i = s \<and> int_list ctx s = i"
    using u i by simp
qed

text \<open>
  The index lists that the docstring of \<open>close_by_one\<close> asks for: the combinations and the
  elements to check are indexes of objects or of attributes.
\<close>

definition seeds_valid :: "nat \<Rightarrow> nat list list option \<Rightarrow> nat list option \<Rightarrow> bool" where
  "seeds_valid n initial_combinations iter_elements_to_check \<longleftrightarrow>
     (case initial_combinations of None \<Rightarrow> True | Some combs \<Rightarrow> list_all (valid n) combs) \<and>
     (case iter_elements_to_check of None \<Rightarrow> True | Some es \<Rightarrow> valid n es)"

lemma galois_pairs_names:
  assumes wf: "wf_context ctx"
    and ps: "\<And>e i. (e, i) \<in> set ps \<Longrightarrow> ext_list ctx i = e \<and> int_list ctx e = i"
  shows "\<forall>(e, i) \<in> set ps. (\<forall>g \<in> set e. g < length (object_names ctx)) \<and>
           (\<forall>m \<in> set i. m < length (attribute_names ctx))"
proof -
  have lo: "length (object_names ctx) = n_objects ctx"
    and la: "length (attribute_names ctx) = n_attributes ctx"
    using wf unfolding wf_context_def n_objects_def n_attributes_def by blast+
  have "(\<forall>g \<in> set e. g < n_objects ctx) \<and> (\<forall>m \<in> set i. m < n_attributes ctx)"
    if "(e, i) \<in> set ps" for e i
  proof -
    have ei: "ext_list ctx i = e" "int_list ctx e = i"
      using ps [OF that] by simp_all
    have "\<forall>g \<in> set (ext_list ctx i). g < n_objects ctx"
      by (simp add: ext_list_valid)
    moreover have "\<forall>m \<in> set (int_list ctx e). m < n_attributes ctx"
      by (simp add: int_list_valid)
    ultimately show ?thesis unfolding ei by simp
  qed
  then show ?thesis unfolding lo la by fast
qed

lemma close_by_one_seeded:
  assumes wf: "wf_context ctx"
  shows "\<exists>r. close_by_one hf (FormalContext ctx :: 'p fca_context) True (Some b)
               initial_combinations iter_elements_to_check = Some r \<and>
     (\<forall>cs. r = Inr (Concepts cs) \<longrightarrow>
        (\<exists>ps. cs = map (concept_of (object_names ctx) (attribute_names ctx) (hf ctx)) ps \<and>
              (\<forall>p \<in> set ps. ext_list ctx (snd p) = fst p \<and> int_list ctx (fst p) = snd p))) \<and>
     (seeds_valid (if b then n_objects ctx else n_attributes ctx)
        initial_combinations iter_elements_to_check \<longrightarrow> (\<exists>cs. r = Inr (Concepts cs)))"
proof -
  let ?mk = "concept_of (object_names ctx) (attribute_names ctx) (hf ctx)"
  let ?n = "if b then n_objects ctx else n_attributes ctx"
  define es where "es = (case iter_elements_to_check of None \<Rightarrow> [0..<?n] | Some es \<Rightarrow> es)"
  define Q where "Q = (case initial_combinations of None \<Rightarrow> [[]] | Some cs \<Rightarrow> cs)"
  have sv: "(\<forall>comb \<in> set Q. valid ?n comb) \<and> valid ?n es"
    if "seeds_valid ?n initial_combinations iter_elements_to_check"
    using that unfolding seeds_valid_def Q_def es_def
    by (auto simp: valid_def list_all_iff split: option.splits)
  have i0: "pairs_inv P [] []" for P :: "nat list \<Rightarrow> nat list \<Rightarrow> bool"
    unfolding pairs_inv_def by simp
  have cb: "close_by_one hf (FormalContext ctx :: 'p fca_context) True (Some b)
               initial_combinations iter_elements_to_check =
     (case cbo_loop (if b then extension_i ctx else intention_i ctx)
             (if b then intention_i ctx else extension_i ctx) es Q [] [] of
        None \<Rightarrow> None
      | Some (Inl e) \<Rightarrow> Some (Inl e)
      | Some (Inr (D, S)) \<Rightarrow>
          (case make_concepts (object_names ctx) (attribute_names ctx) (hf ctx)
                  (zip (if b then map snd (dict_invert D) else S)
                       (if b then S else map snd (dict_invert D))) of
             Inl e \<Rightarrow> Some (Inl e)
           | Inr cl \<Rightarrow> Some (Inr (Concepts cl))))"
    unfolding close_by_one_def es_def Q_def
    by (cases b; cases iter_elements_to_check)
      (simp_all add: Let_def split: option.splits sum.splits prod.splits)
  show ?thesis
  proof (cases b)
    case True
    let ?P = "\<lambda>i s. ext_list ctx s = i \<and> int_list ctx i = s"
    obtain r0 where r0: "cbo_loop (extension_i ctx) (intention_i ctx) es Q [] [] = Some r0"
      and inv: "\<And>D' S'. r0 = Inr (D', S') \<Longrightarrow> pairs_inv ?P D' S'"
      and ok: "(\<forall>comb \<in> set Q. valid (n_objects ctx) comb) \<and> valid (n_objects ctx) es \<Longrightarrow>
          \<exists>D' S'. r0 = Inr (D', S')"
      using cbo_loop_seeded [OF closure_ops_extents [OF wf] ops_sound_extents [OF wf] i0,
          of es Q] by blast
    show ?thesis
    proof (cases r0)
      case (Inl e)
      have "close_by_one hf (FormalContext ctx :: 'p fca_context) True (Some b)
               initial_combinations iter_elements_to_check = Some (Inl e)"
        unfolding cb using r0 Inl True by simp
      moreover have "\<not> seeds_valid ?n initial_combinations iter_elements_to_check"
        using sv ok Inl True by auto
      ultimately show ?thesis by simp
    next
      case (Inr DS)
      obtain D' S' where DS: "DS = (D', S')" by (cases DS)
      have pi: "pairs_inv ?P D' S'" using inv Inr DS by simp
      let ?ps = "zip (map fst D') S'"
      have di: "map snd (dict_invert D') = map fst D'"
        by (rule pairs_inv_zip(1) [OF pi])
      have pp: "ext_list ctx i = e \<and> int_list ctx e = i" if "(e, i) \<in> set ?ps" for e i
        using pairs_inv_zip(3) [OF pi that] by simp
      have mc: "make_concepts (object_names ctx) (attribute_names ctx) (hf ctx) ?ps = Inr (map ?mk ?ps)"
        by (rule make_concepts_ok) (rule galois_pairs_names [OF wf pp])
      have res: "close_by_one hf (FormalContext ctx :: 'p fca_context) True (Some b)
               initial_combinations iter_elements_to_check = Some (Inr (Concepts (map ?mk ?ps)))"
        unfolding cb using r0 Inr DS True by (simp add: di mc)
      have "\<forall>p \<in> set ?ps. ext_list ctx (snd p) = fst p \<and> int_list ctx (fst p) = snd p"
        using pp by auto
      then show ?thesis using res by auto
    qed
  next
    case False
    let ?P = "\<lambda>i s. ext_list ctx i = s \<and> int_list ctx s = i"
    obtain r0 where r0: "cbo_loop (intention_i ctx) (extension_i ctx) es Q [] [] = Some r0"
      and inv: "\<And>D' S'. r0 = Inr (D', S') \<Longrightarrow> pairs_inv ?P D' S'"
      and ok: "(\<forall>comb \<in> set Q. valid (n_attributes ctx) comb) \<and> valid (n_attributes ctx) es \<Longrightarrow>
          \<exists>D' S'. r0 = Inr (D', S')"
      using cbo_loop_seeded [OF closure_ops_intents [OF wf] ops_sound_intents [OF wf] i0,
          of es Q] by blast
    show ?thesis
    proof (cases r0)
      case (Inl e)
      have "close_by_one hf (FormalContext ctx :: 'p fca_context) True (Some b)
               initial_combinations iter_elements_to_check = Some (Inl e)"
        unfolding cb using r0 Inl False by simp
      moreover have "\<not> seeds_valid ?n initial_combinations iter_elements_to_check"
        using sv ok Inl False by auto
      ultimately show ?thesis by simp
    next
      case (Inr DS)
      obtain D' S' where DS: "DS = (D', S')" by (cases DS)
      have pi: "pairs_inv ?P D' S'" using inv Inr DS by simp
      let ?ps = "zip S' (map fst D')"
      have di: "map snd (dict_invert D') = map fst D'"
        by (rule pairs_inv_zip(1) [OF pi])
      have pp: "ext_list ctx i = e \<and> int_list ctx e = i" if "(e, i) \<in> set ?ps" for e i
      proof -
        have "(i, e) \<in> set (zip (map fst D') S')"
          using that unfolding in_set_zip by auto
        then show ?thesis using pairs_inv_zip(3) [OF pi] by simp
      qed
      have mc: "make_concepts (object_names ctx) (attribute_names ctx) (hf ctx) ?ps = Inr (map ?mk ?ps)"
        by (rule make_concepts_ok) (rule galois_pairs_names [OF wf pp])
      have res: "close_by_one hf (FormalContext ctx :: 'p fca_context) True (Some b)
               initial_combinations iter_elements_to_check = Some (Inr (Concepts (map ?mk ?ps)))"
        unfolding cb using r0 Inr DS False by (simp add: di mc)
      have "\<forall>p \<in> set ?ps. ext_list ctx (snd p) = fst p \<and> int_list ctx (fst p) = snd p"
        using pp by auto
      then show ?thesis using res by auto
    qed
  qed
qed


lemma galois_pair_closed:
  assumes wf: "wf_context ctx"
    and p: "ext_list ctx (snd p) = fst p" "int_list ctx (fst p) = snd p"
    and sx: "set xs = set (fst p)" and sy: "set ys = set (snd p)"
  shows "intention_i ctx xs = Inr (snd p)" "extension_i ctx ys = Inr (fst p)"
proof -
  have vx: "\<forall>g \<in> set xs. g < n_objects ctx"
    unfolding sx using ext_list_valid [of _ ctx "snd p"] p(1) by simp
  have vy: "\<forall>m \<in> set ys. m < n_attributes ctx"
    unfolding sy using int_list_valid [of _ ctx "fst p"] p(2) by simp
  show "intention_i ctx xs = Inr (snd p)"
    using intention_i_ok [OF wf vx] int_list_cong [OF sx, of ctx] p(2) by simp
  show "extension_i ctx ys = Inr (fst p)"
    using extension_i_ok [OF wf vy] ext_list_cong [OF sy, of ctx] p(1) by simp
qed

section \<open>Properties of the concepts enumerated by Close-by-One\<close>

text \<open>
  Claim C1.  On every well-formed formal context \<open>close_by_one\<close> returns a list of concepts when
  it iterates over extents and when it iterates over intents.  Neither list holds two
  concepts with the same extent index set, nor two with the same intent index set; the
  two lists hold the same concepts; and every closed extent and every closed intent (the
  closure of a list of valid indexes) is the extent, respectively intent, of a concept of
  the list.
\<close>

theorem close_by_one_enumerates_once:
  assumes wf: "wf_context ctx"
  shows "\<exists>cs1 cs2.
     close_by_one hf (FormalContext ctx :: 'p fca_context) True (Some True) None None = Some (Inr (Concepts cs1)) \<and>
     close_by_one hf (FormalContext ctx :: 'p fca_context) True (Some False) None None = Some (Inr (Concepts cs2)) \<and>
     distinct (map extent_i cs1) \<and> distinct (map intent_i cs1) \<and>
     distinct (map extent_i cs2) \<and> distinct (map intent_i cs2) \<and>
     set cs1 = set cs2 \<and>
     (\<forall>S. valid (n_objects ctx) S \<longrightarrow>
        (\<exists>E. closure_objects ctx S = Inr E \<and> set E \<in> extent_i ` set cs1)) \<and>
     (\<forall>T. valid (n_attributes ctx) T \<longrightarrow>
        (\<exists>B. closure_attributes ctx T = Inr B \<and> set B \<in> intent_i ` set cs2))"
proof -
  let ?mk = "concept_of (object_names ctx) (attribute_names ctx) (hf ctx)"
  obtain ps1 where ps1: "cbo_pairs ctx True ps1"
    and r1: "close_by_one hf (FormalContext ctx :: 'p fca_context) True (Some True) None None =
       Some (Inr (Concepts (map ?mk ps1)))"
    using close_by_one_result [OF wf, of True hf] by blast
  obtain ps2 where ps2: "cbo_pairs ctx False ps2"
    and r2: "close_by_one hf (FormalContext ctx :: 'p fca_context) True (Some False) None None =
       Some (Inr (Concepts (map ?mk ps2)))"
    using close_by_one_result [OF wf, of False hf] by blast
  have s1: "set ps1 = {(e, i). ext_list ctx i = e \<and> int_list ctx e = i}"
    by (rule cbo_pairs_set [OF ps1])
  have s2: "set ps2 = {(e, i). ext_list ctx i = e \<and> int_list ctx e = i}"
    by (rule cbo_pairs_set [OF ps2])
  have d1: "distinct (map extent_i (map ?mk ps1)) \<and> distinct (map intent_i (map ?mk ps1))"
    using cbo_pairs_sets_distinct [OF ps1] by (simp add: comp_def concept_of_sel)
  have d2: "distinct (map extent_i (map ?mk ps2)) \<and> distinct (map intent_i (map ?mk ps2))"
    using cbo_pairs_sets_distinct [OF ps2] by (simp add: comp_def concept_of_sel)
  have eq: "set (map ?mk ps1) = set (map ?mk ps2)"
    using s1 s2 by simp
  have c1: "\<exists>E. closure_objects ctx S = Inr E \<and> set E \<in> extent_i ` set (map ?mk ps1)"
    if v: "valid (n_objects ctx) S" for S
  proof -
    let ?E = "ext_list ctx (int_list ctx S)"
    have vS: "\<forall>g \<in> set S. g < n_objects ctx" using v unfolding valid_def .
    have "closure_objects ctx S = Inr ?E"
      using wf vS by (rule closure_objects_ok)
    moreover have "int_list ctx ?E = int_list ctx S"
      using vS by (rule int_ext_int)
    then have "(?E, int_list ctx S) \<in> set ps1"
      unfolding s1 by simp
    then have "extent_i (?mk (?E, int_list ctx S)) \<in> extent_i ` set (map ?mk ps1)"
      by (intro imageI) simp
    then have "set ?E \<in> extent_i ` set (map ?mk ps1)"
      by (simp add: concept_of_sel)
    ultimately show ?thesis by blast
  qed
  have c2: "\<exists>B. closure_attributes ctx T = Inr B \<and> set B \<in> intent_i ` set (map ?mk ps2)"
    if v: "valid (n_attributes ctx) T" for T
  proof -
    let ?B = "int_list ctx (ext_list ctx T)"
    have vT: "\<forall>m \<in> set T. m < n_attributes ctx" using v unfolding valid_def .
    have "closure_attributes ctx T = Inr ?B"
      using wf vT by (rule closure_attributes_ok)
    moreover have "ext_list ctx ?B = ext_list ctx T"
      using vT by (rule ext_int_ext)
    then have "(ext_list ctx T, ?B) \<in> set ps2"
      unfolding s2 by simp
    then have "intent_i (?mk (ext_list ctx T, ?B)) \<in> intent_i ` set (map ?mk ps2)"
      by (intro imageI) simp
    then have "set ?B \<in> intent_i ` set (map ?mk ps2)"
      by (simp add: concept_of_sel)
    ultimately show ?thesis by blast
  qed
  have d1a: "distinct (map extent_i (map ?mk ps1))" and d1b: "distinct (map intent_i (map ?mk ps1))"
    and d2a: "distinct (map extent_i (map ?mk ps2))" and d2b: "distinct (map intent_i (map ?mk ps2))"
    using d1 d2 by blast+
  have c1': "\<forall>S. valid (n_objects ctx) S \<longrightarrow>
        (\<exists>E. closure_objects ctx S = Inr E \<and> set E \<in> extent_i ` set (map ?mk ps1))"
    using c1 by blast
  have c2': "\<forall>T. valid (n_attributes ctx) T \<longrightarrow>
        (\<exists>B. closure_attributes ctx T = Inr B \<and> set B \<in> intent_i ` set (map ?mk ps2))"
    using c2 by blast
  show ?thesis
    by (rule exI [of _ "map ?mk ps1"], rule exI [of _ "map ?mk ps2"])
      (intro conjI r1 r2 d1a d1b d2a d2b eq c1' c2')
qed

theorem close_by_one_enumerates_once_witness:
  "wf_context animal_movement \<and>
   (\<exists>cs1 cs2.
     close_by_one (\<lambda>_. 0) (FormalContext animal_movement :: unit fca_context)
       True (Some True) None None = Some (Inr (Concepts cs1)) \<and>
     close_by_one (\<lambda>_. 0) (FormalContext animal_movement :: unit fca_context)
       True (Some False) None None = Some (Inr (Concepts cs2)) \<and>
     distinct (map extent_i cs1) \<and> distinct (map intent_i cs1) \<and>
     distinct (map extent_i cs2) \<and> distinct (map intent_i cs2) \<and>
     set cs1 = set cs2 \<and>
     (\<forall>S. valid (n_objects animal_movement) S \<longrightarrow>
        (\<exists>E. closure_objects animal_movement S = Inr E \<and> set E \<in> extent_i ` set cs1)) \<and>
     (\<forall>T. valid (n_attributes animal_movement) T \<longrightarrow>
        (\<exists>B. closure_attributes animal_movement T = Inr B \<and> set B \<in> intent_i ` set cs2)))"
  using wf_animal_movement close_by_one_enumerates_once [OF wf_animal_movement, of "\<lambda>_. 0"]
  by (rule conjI)

text \<open>
  Claim C2.  On every well-formed formal context, for every choice of \<open>iterate_extents\<close>,
  \<open>initial_combinations\<close> and \<open>iter_elements_to_check\<close>, \<open>close_by_one\<close> with
  \<open>output_as_concepts = True\<close> comes to an end, with a list of concepts or with an exception
  (a failed assertion, or an \<open>IndexError\<close> for an index outside the context).  Each concept
  of a returned list is a Galois-closed pair: \<open>intention_i\<close> applied to the extent indexes (in
  any order) returns the intent indexes, and \<open>extension_i\<close> applied to the intent indexes
  returns the extent indexes.  A list of concepts is returned whenever the call has no
  \<open>initial_combinations\<close> and no \<open>iter_elements_to_check\<close>, and whenever \<open>iterate_extents\<close> is
  given and the lists hold indexes of the context.
\<close>

theorem close_by_one_galois_closed:
  assumes wf: "wf_context ctx"
  shows "\<exists>r. close_by_one hf (FormalContext ctx :: 'p fca_context) True iterate_extents
               initial_combinations iter_elements_to_check = Some r \<and>
     (\<forall>cs. r = Inr (Concepts cs) \<longrightarrow>
        (\<forall>c \<in> set cs. \<forall>xs ys. set xs = extent_i c \<and> set ys = intent_i c \<longrightarrow>
           (\<exists>M G. intention_i ctx xs = Inr M \<and> set M = intent_i c \<and>
                  extension_i ctx ys = Inr G \<and> set G = extent_i c))) \<and>
     ((initial_combinations = None \<and> iter_elements_to_check = None) \<or>
      (\<exists>b. iterate_extents = Some b \<and>
           seeds_valid (if b then n_objects ctx else n_attributes ctx)
             initial_combinations iter_elements_to_check) \<longrightarrow>
      (\<exists>cs. r = Inr (Concepts cs)))"
proof -
  let ?mk = "concept_of (object_names ctx) (attribute_names ctx) (hf ctx)"
  let ?closed = "\<lambda>cs. \<forall>c \<in> set cs. \<forall>xs ys. set xs = extent_i c \<and> set ys = intent_i c \<longrightarrow>
           (\<exists>M G. intention_i ctx xs = Inr M \<and> set M = intent_i c \<and>
                  extension_i ctx ys = Inr G \<and> set G = extent_i c)"
  have closed: "?closed (map ?mk ps)"
    if ps: "\<forall>p \<in> set ps. ext_list ctx (snd p) = fst p \<and> int_list ctx (fst p) = snd p" for ps
  proof (intro ballI allI impI)
    fix c xs ys
    assume c: "c \<in> set (map ?mk ps)" and xy: "set xs = extent_i c \<and> set ys = intent_i c"
    from c obtain p where p: "p \<in> set ps" "c = ?mk p" by auto
    have pp: "ext_list ctx (snd p) = fst p" "int_list ctx (fst p) = snd p"
      using ps p(1) by simp_all
    have sx: "set xs = set (fst p)" and sy: "set ys = set (snd p)"
      using xy unfolding p(2) by (simp_all add: concept_of_sel)
    have "intention_i ctx xs = Inr (snd p)" "extension_i ctx ys = Inr (fst p)"
      using wf pp sx sy by (rule galois_pair_closed)+
    then show "\<exists>M G. intention_i ctx xs = Inr M \<and> set M = intent_i c \<and>
                  extension_i ctx ys = Inr G \<and> set G = extent_i c"
      unfolding p(2) by (simp add: concept_of_sel)
  qed
  have seeded: "\<exists>r. close_by_one hf (FormalContext ctx :: 'p fca_context) True (Some b)
               initial_combinations iter_elements_to_check = Some r \<and>
     (\<forall>cs. r = Inr (Concepts cs) \<longrightarrow> ?closed cs) \<and>
     (seeds_valid (if b then n_objects ctx else n_attributes ctx)
        initial_combinations iter_elements_to_check \<longrightarrow> (\<exists>cs. r = Inr (Concepts cs)))" for b
  proof -
    obtain r where r: "close_by_one hf (FormalContext ctx :: 'p fca_context) True (Some b)
               initial_combinations iter_elements_to_check = Some r"
      and ps: "\<And>cs. r = Inr (Concepts cs) \<Longrightarrow>
        \<exists>ps. cs = map ?mk ps \<and>
              (\<forall>p \<in> set ps. ext_list ctx (snd p) = fst p \<and> int_list ctx (fst p) = snd p)"
      and ok: "seeds_valid (if b then n_objects ctx else n_attributes ctx)
        initial_combinations iter_elements_to_check \<longrightarrow> (\<exists>cs. r = Inr (Concepts cs))"
      using close_by_one_seeded [OF wf, of hf b initial_combinations iter_elements_to_check]
      by blast
    have "?closed cs" if "r = Inr (Concepts cs)" for cs
      using ps [OF that] closed by blast
    then show ?thesis using r ok by blast
  qed
  have triv: "seeds_valid n None None" for n
    unfolding seeds_valid_def by simp
  let ?pre = "(initial_combinations = None \<and> iter_elements_to_check = None) \<or>
      (\<exists>b. iterate_extents = Some b \<and>
           seeds_valid (if b then n_objects ctx else n_attributes ctx)
             initial_combinations iter_elements_to_check)"
  show ?thesis
  proof (cases iterate_extents)
    case (Some b)
    have sv: "seeds_valid (if b then n_objects ctx else n_attributes ctx)
             initial_combinations iter_elements_to_check" if ?pre
      using that triv Some by auto
    from seeded [of b] obtain r where
      r: "close_by_one hf (FormalContext ctx :: 'p fca_context) True (Some b)
               initial_combinations iter_elements_to_check = Some r"
      and cl: "\<forall>cs. r = Inr (Concepts cs) \<longrightarrow> ?closed cs"
      and ok: "seeds_valid (if b then n_objects ctx else n_attributes ctx)
        initial_combinations iter_elements_to_check \<longrightarrow> (\<exists>cs. r = Inr (Concepts cs))"
      by (elim exE conjE)
    have 3: "?pre \<longrightarrow> (\<exists>cs. r = Inr (Concepts cs))"
      using sv ok by (intro impI) (elim impE, assumption+)
    show ?thesis
      unfolding Some by (intro exI [of _ r] conjI r cl 3 [unfolded Some])
  next
    case None
    show ?thesis
    proof (cases "initial_combinations = None \<and> iter_elements_to_check = None")
      case True
      have e: "close_by_one hf (FormalContext ctx :: 'p fca_context) True iterate_extents
               initial_combinations iter_elements_to_check =
          close_by_one hf (FormalContext ctx :: 'p fca_context) True (Some True)
               initial_combinations iter_elements_to_check"
        using None True by (simp add: close_by_one_default)
      have sv: "seeds_valid (if True then n_objects ctx else n_attributes ctx)
          initial_combinations iter_elements_to_check"
        using True triv by simp
      from seeded [of True] obtain r where
        r: "close_by_one hf (FormalContext ctx :: 'p fca_context) True (Some True)
               initial_combinations iter_elements_to_check = Some r"
        and cl: "\<forall>cs. r = Inr (Concepts cs) \<longrightarrow> ?closed cs"
        and ok: "seeds_valid (if True then n_objects ctx else n_attributes ctx)
          initial_combinations iter_elements_to_check \<longrightarrow> (\<exists>cs. r = Inr (Concepts cs))"
        by (elim exE conjE)
      have "\<exists>cs. r = Inr (Concepts cs)" using ok sv by (elim impE)
      then have 3: "?pre \<longrightarrow> (\<exists>cs. r = Inr (Concepts cs))" by (intro impI)
      show ?thesis
        unfolding e by (intro exI [of _ r] conjI r cl 3)
    next
      case False
      have r: "close_by_one hf (FormalContext ctx :: 'p fca_context) True iterate_extents
               initial_combinations iter_elements_to_check = Some (Inl AssertionError)"
        using None False unfolding close_by_one_def by auto
      have cl: "\<forall>cs. (Inl AssertionError :: error + 'p cbo_output) = Inr (Concepts cs) \<longrightarrow> ?closed cs"
        by simp
      have "\<not> ?pre" using None False by simp
      then have 3: "?pre \<longrightarrow> (\<exists>cs. (Inl AssertionError :: error + 'p cbo_output) = Inr (Concepts cs))"
        by (intro impI) (erule notE)
      show ?thesis
        by (intro exI [of _ "Inl AssertionError"] conjI r cl 3)
    qed
  qed
qed

theorem close_by_one_galois_closed_witness:
  "wf_context \<lparr>data = [[True, False], [True, True]], object_names = [''a'', ''b''],
                attribute_names = [''x'', ''y'']\<rparr> \<and>
   seeds_valid
     (n_attributes \<lparr>data = [[True, False], [True, True]], object_names = [''a'', ''b''],
                     attribute_names = [''x'', ''y'']\<rparr>) (Some [[0]]) (Some [1]) \<and>
   close_by_one (\<lambda>_. 0)
     (FormalContext \<lparr>data = [[True, False], [True, True]], object_names = [''a'', ''b''],
                     attribute_names = [''x'', ''y'']\<rparr> :: unit fca_context)
     True (Some False) (Some [[0]]) (Some [1]) =
     Some (Inr (Concepts
       [\<lparr>extent_i = {0, 1}, extent = {''a'', ''b''}, intent_i = {0}, intent = {''x''},
         measures = [], context_hash = Some 0, is_monotone = False\<rparr>,
        \<lparr>extent_i = {1}, extent = {''b''}, intent_i = {0, 1}, intent = {''x'', ''y''},
         measures = [], context_hash = Some 0, is_monotone = False\<rparr>])) \<and>
   (\<exists>M G. intention_i \<lparr>data = [[True, False], [True, True]], object_names = [''a'', ''b''],
                     attribute_names = [''x'', ''y'']\<rparr> [1, 0] = Inr M \<and> set M = {0} \<and>
          extension_i \<lparr>data = [[True, False], [True, True]], object_names = [''a'', ''b''],
                     attribute_names = [''x'', ''y'']\<rparr> [0] = Inr G \<and> set G = {0, 1}) \<and>
   (\<exists>M G. intention_i \<lparr>data = [[True, False], [True, True]], object_names = [''a'', ''b''],
                     attribute_names = [''x'', ''y'']\<rparr> [1] = Inr M \<and> set M = {0, 1} \<and>
          extension_i \<lparr>data = [[True, False], [True, True]], object_names = [''a'', ''b''],
                     attribute_names = [''x'', ''y'']\<rparr> [1, 0] = Inr G \<and> set G = {1})"
proof -
  let ?K = "\<lparr>data = [[True, False], [True, True]], object_names = [''a'', ''b''],
                attribute_names = [''x'', ''y'']\<rparr>"
  let ?c1 = "\<lparr>extent_i = {0, 1::nat}, extent = {''a'', ''b''}, intent_i = {0::nat}, intent = {''x''},
         measures = [], context_hash = Some (0::int), is_monotone = False\<rparr>"
  let ?c2 = "\<lparr>extent_i = {1::nat}, extent = {''b''}, intent_i = {0, 1::nat}, intent = {''x'', ''y''},
         measures = [], context_hash = Some (0::int), is_monotone = False\<rparr>"
  have wf: "wf_context ?K"
    unfolding wf_context_def by simp
  have sv: "seeds_valid (n_attributes ?K) (Some [[0]]) (Some [1])"
    unfolding seeds_valid_def valid_def n_attributes_def by simp
  have ev: "close_by_one (\<lambda>_. 0) (FormalContext ?K :: unit fca_context)
     True (Some False) (Some [[0]]) (Some [1]) = Some (Inr (Concepts [?c1, ?c2]))"
    by (simp add: close_by_one_def cbo_loop.simps extension_i_def intention_i_def Let_def
     sorted_set_diff_def dict_contains_def dict_invert_def n_objects_def n_attributes_def
     insert_commute)
  from close_by_one_galois_closed [OF wf, of "\<lambda>_. 0" "Some False" "Some [[0]]" "Some [1]"]
  obtain r where r: "close_by_one (\<lambda>_. 0) (FormalContext ?K :: unit fca_context)
     True (Some False) (Some [[0]]) (Some [1]) = Some r"
    and cl: "\<forall>cs. r = Inr (Concepts cs) \<longrightarrow>
        (\<forall>c \<in> set cs. \<forall>xs ys. set xs = extent_i c \<and> set ys = intent_i c \<longrightarrow>
           (\<exists>M G. intention_i ?K xs = Inr M \<and> set M = intent_i c \<and>
                  extension_i ?K ys = Inr G \<and> set G = extent_i c))"
    by (elim exE conjE)
  have req: "r = Inr (Concepts [?c1, ?c2])" using r ev by simp
  have c: "\<forall>c \<in> set [?c1, ?c2]. \<forall>xs ys. set xs = extent_i c \<and> set ys = intent_i c \<longrightarrow>
           (\<exists>M G. intention_i ?K xs = Inr M \<and> set M = intent_i c \<and>
                  extension_i ?K ys = Inr G \<and> set G = extent_i c)"
    by (rule mp [OF spec [where x = "[?c1, ?c2]", OF cl] req])
  have g1: "\<exists>M G. intention_i ?K [1, 0] = Inr M \<and> set M = {0} \<and>
          extension_i ?K [0] = Inr G \<and> set G = {0, 1}"
    using c [rule_format, of ?c1 "[1, 0]" "[0]"] by (simp add: insert_commute)
  have g2: "\<exists>M G. intention_i ?K [1] = Inr M \<and> set M = {0, 1} \<and>
          extension_i ?K [1, 0] = Inr G \<and> set G = {1}"
    using c [rule_format, of ?c2 "[1]" "[1, 0]"] by (simp add: insert_commute)
  show ?thesis
    by (intro conjI wf sv ev g1 g2)
qed

text \<open>
  Claim C5, evaluated on the code.  The default of \<open>iterate_extents\<close> tests the type of the
  context against the class \<open>FormalConcept\<close>, which no context has, so the default is \<open>True\<close>
  whatever the numbers of objects and attributes.  On the context with the two objects
  \<open>a\<close>, \<open>b\<close> and the one attribute \<open>x\<close>, where the objects are not fewer than the
  attributes, the call without \<open>iterate_extents\<close> returns what \<open>iterate_extents = True\<close>
  returns, and not what \<open>iterate_extents = False\<close> returns.
\<close>

theorem close_by_one_default_iterates_objects:
  "\<not> n_objects \<lparr>data = [[True], [False]], object_names = [''a'', ''b''],
                   attribute_names = [''x'']\<rparr>
       < n_attributes \<lparr>data = [[True], [False]], object_names = [''a'', ''b''],
                   attribute_names = [''x'']\<rparr> \<and>
   close_by_one (\<lambda>_. 0)
     (FormalContext \<lparr>data = [[True], [False]], object_names = [''a'', ''b''],
                     attribute_names = [''x'']\<rparr> :: unit fca_context)
     False None None None = Some (Inr (Data [[0], [0, 1]] [[0], []])) \<and>
   close_by_one (\<lambda>_. 0)
     (FormalContext \<lparr>data = [[True], [False]], object_names = [''a'', ''b''],
                     attribute_names = [''x'']\<rparr> :: unit fca_context)
     False (Some True) None None = Some (Inr (Data [[0], [0, 1]] [[0], []])) \<and>
   close_by_one (\<lambda>_. 0)
     (FormalContext \<lparr>data = [[True], [False]], object_names = [''a'', ''b''],
                     attribute_names = [''x'']\<rparr> :: unit fca_context)
     False (Some False) None None = Some (Inr (Data [[0, 1], [0]] [[], [0]]))"
  by (simp add: close_by_one_def cbo_loop.simps extension_i_def intention_i_def Let_def
     sorted_set_diff_def dict_contains_def dict_invert_def n_objects_def n_attributes_def)

section \<open>The projection loop of SOFIA\<close>

text \<open>
  \<^verbatim>\<open>sofia_binary\<close> with \<open>iterate_attributes = True\<close> computes the concepts of the context
  projected on its first \<open>proj_to_start\<close> attributes and makes a lattice of them.  Then, for
  every \<open>projection_num\<close> from \<open>proj_to_start + 1\<close> to the number of attributes, it projects
  the context on the first \<open>projection_num\<close> attributes, calls \<open>close_by_one\<close> on the
  projection with the intents of the concepts of the lattice as \<open>initial_combinations\<close> and
  with \<open>[projection_num - 1]\<close> as \<open>iter_elements_to_check\<close>, and gives every concept of the
  lattice the hash of the projection, before it compares the concepts of the lattice with
  the new ones.  The class \<open>ConceptLattice\<close> and the module \<open>lattice_construction\<close> are not
  among the sources at hand; the concepts of the first lattice are those it is made of.
\<close>





section \<open>The eviction step of SOFIA\<close>

text \<open>
  \<^verbatim>\<open>sofia_binary\<close>, the block that runs at the end of a projection iteration when
  \<^verbatim>\<open>len(lattice.concepts) > L_max\<close>.  The class \<open>ConceptLattice\<close> is not among the sources at
  hand.  The lattice is represented by its list of concepts; \<open>metrics\<close> is the list of the
  values \<^verbatim>\<open>c.measures[measure_name]\<close> that \<open>calc_concepts_measures\<close> has stored, one for each
  concept and in the order of the concepts; \<open>top_concept_i\<close> and \<open>bottom_concept_i\<close> are the
  two positions the lattice reports.
\<close>

text \<open>\<open>\<le>\<close> on floats is false as soon as one side is NaN.\<close>

fun float_le :: "pyfloat \<Rightarrow> pyfloat \<Rightarrow> bool" where
  "float_le (Float x) (Float y) = (x \<le> y)"
| "float_le (Float x) NaN = False"
| "float_le NaN y = False"

text \<open>
  Modelled from the spec: \<open>ConceptLattice.remove_concept\<close> is missing from the sources.  The
  spec has the lattice as an ordered collection of concepts indexed by position, from which
  single concepts are removed; on the list of concepts the removal of position \<open>c_i\<close> deletes
  that entry and moves the later ones down by one.
\<close>

definition remove_concept :: "'c list \<Rightarrow> nat \<Rightarrow> 'c list" where
  "remove_concept concepts c_i = take c_i concepts @ drop (Suc c_i) concepts"

text \<open>
  \<^verbatim>\<open>sorted(metrics)[-L_max-1]\<close>, read where \<^verbatim>\<open>len(metrics) > L_max\<close>.  The built-in \<open>sorted\<close>
  is the parameter \<open>py_sorted\<close>: on floats without NaN it sorts in ascending order, with NaN
  among them its result depends on the sorting algorithm of the interpreter.
\<close>

definition metrics_lim :: "(pyfloat list \<Rightarrow> pyfloat list) \<Rightarrow> nat \<Rightarrow> pyfloat list \<Rightarrow> pyfloat" where
  "metrics_lim py_sorted L_max metrics = py_sorted metrics ! (length metrics - L_max - 1)"

definition concepts_to_remove ::
  "(pyfloat list \<Rightarrow> pyfloat list) \<Rightarrow> nat \<Rightarrow> pyfloat list \<Rightarrow> nat \<Rightarrow> nat \<Rightarrow> nat \<Rightarrow> nat list" where
  "concepts_to_remove py_sorted L_max metrics top_concept_i bottom_concept_i n =
     filter (\<lambda>i. i \<notin> set [top_concept_i, bottom_concept_i])
       (rev (filter (\<lambda>i. float_le (metrics ! i) (metrics_lim py_sorted L_max metrics)) [0..<n]))"

definition sofia_evict ::
  "(pyfloat list \<Rightarrow> pyfloat list) \<Rightarrow> nat \<Rightarrow> pyfloat list \<Rightarrow> nat \<Rightarrow> nat \<Rightarrow> 'c list \<Rightarrow> 'c list" where
  "sofia_evict py_sorted L_max metrics top_concept_i bottom_concept_i concepts =
     (if length concepts > L_max
      then foldl remove_concept concepts
             (concepts_to_remove py_sorted L_max metrics top_concept_i bottom_concept_i
                (length concepts))
      else concepts)"

text \<open>
  Claim C4.  The bound of the claim, which is also the one of the docstring of
  \<open>sofia_binary\<close> (\<open>L_max\<close>: maximum size of the returned lattice), is not kept by the eviction
  step.  With \<open>L_max = 2\<close>, four concepts with the measure values \<open>0, 0, 5, 6\<close>, the top
  concept at position \<open>0\<close> and the bottom concept at position \<open>1\<close>, the threshold is \<open>0\<close>, the
  only concepts at or below it are the top and the bottom, which the second filter keeps,
  nothing is removed, and the four concepts remain.  The list of the measure values is in
  ascending order already, so \<open>sorted\<close> returns it as it is.  (With the sources at hand a
  run of \<open>sofia_binary\<close> does not get as far as this block, since the assignment of the
  projection loop raises first.)
\<close>

theorem sofia_evict_exceeds_L_max:
  assumes "py_sorted [Float 0, Float 0, Float 5, Float 6] = [Float 0, Float 0, Float 5, Float 6]"
  shows "sofia_evict py_sorted 2 [Float 0, Float 0, Float 5, Float 6] 0 1
           [''top'', ''bottom'', ''c'', ''d''] = [''top'', ''bottom'', ''c'', ''d''] \<and>
         \<not> length (sofia_evict py_sorted 2 [Float 0, Float 0, Float 5, Float 6] 0 1
                     [''top'', ''bottom'', ''c'', ''d'']) \<le> 2"
proof -
  have u: "[0..<4] = [0, 1, 2, 3]"
    by (simp add: upt_rec)
  have "sofia_evict py_sorted 2 [Float 0, Float 0, Float 5, Float 6] 0 1
           [''top'', ''bottom'', ''c'', ''d''] = [''top'', ''bottom'', ''c'', ''d'']"
    using assms by (simp add: sofia_evict_def concepts_to_remove_def metrics_lim_def u)
  then show ?thesis by simp
qed

theorem sofia_evict_exceeds_L_max_witness:
  "sofia_evict (sort_key (\<lambda>x. case x of Float r \<Rightarrow> r | NaN \<Rightarrow> 0)) 2
     [Float 0, Float 0, Float 5, Float 6] 0 1
     [''top'', ''bottom'', ''c'', ''d''] = [''top'', ''bottom'', ''c'', ''d''] \<and>
   \<not> length (sofia_evict (sort_key (\<lambda>x. case x of Float r \<Rightarrow> r | NaN \<Rightarrow> 0)) 2
               [Float 0, Float 0, Float 5, Float 6] 0 1
               [''top'', ''bottom'', ''c'', ''d'']) \<le> 2"
  using sofia_evict_exceeds_L_max [of "sort_key (\<lambda>x. case x of Float r \<Rightarrow> r | NaN \<Rightarrow> 0)"]
  by simp

section \<open>The algorithm of Lindig\<close>

text \<open>
  \<^verbatim>\<open>lindig_algorithm\<close> works on Python sets, whose iteration order and whose \<^verbatim>\<open>pop\<close> the
  language leaves open.  The model takes both as parameters: \<open>set_order\<close> lists the members
  of a set of indexes in the order of iteration, and \<open>pop_index\<close> chooses the member that
  \<^verbatim>\<open>queue.pop()\<close> returns, as a position (taken modulo the size) in the list that represents
  the queue.
\<close>

text \<open>
  A dictionary with \<open>FormalConcept\<close> keys: the hash and the \<open>__eq__\<close> of a \<open>FormalConcept\<close> are
  those of the tuple of all its fields, so a key is found when it has the same fields.
\<close>

definition concept_lookup :: "(formal_concept \<times> 'v) list \<Rightarrow> formal_concept \<Rightarrow> 'v option" where
  "concept_lookup d x = map_option snd (find (\<lambda>p. fields_eq (fst p) x) d)"

text \<open>\<^verbatim>\<open>queue.add(x)\<close> on a set of concepts.\<close>

definition queue_add :: "formal_concept list \<Rightarrow> formal_concept \<Rightarrow> formal_concept list" where
  "queue_add q x = (if list_ex (\<lambda>y. fields_eq y x) q then q else q @ [x])"

text \<open>\<^verbatim>\<open>d.setdefault(k, []).append(v)\<close>\<close>

definition setdefault_append :: "(nat \<times> nat list) list \<Rightarrow> nat \<Rightarrow> nat \<Rightarrow> (nat \<times> nat list) list" where
  "setdefault_append d k v =
     (case map_of d k of
        None \<Rightarrow> d @ [(k, [v])]
      | Some vs \<Rightarrow> dict_setitem d k (vs @ [v]))"

text \<open>
  \<^verbatim>\<open>FormalConcept(G, [object_names[i] for i in G], M, [attribute_names[i] for i in M],
  context_hash=context_hash)\<close>
\<close>

definition new_concept ::
  "string list \<Rightarrow> string list \<Rightarrow> int \<Rightarrow> nat list \<Rightarrow> nat list \<Rightarrow> error + formal_concept" where
  "new_concept obj_names attr_names ctx_hash G M =
     (case items_at obj_names G of
        Inl e \<Rightarrow> Inl e
      | Inr G_names \<Rightarrow>
          (case items_at attr_names M of
             Inl e \<Rightarrow> Inl e
           | Inr M_names \<Rightarrow>
               Inr \<lparr>extent_i = set G, extent = set G_names, intent_i = set M,
                    intent = set M_names, measures = [],
                    context_hash = Some ctx_hash, is_monotone = False\<rparr>))"

text \<open>
  The loop of \<open>direct_super_elements\<close> over the members \<open>g\<close> of a copy of \<open>reps\<close>, with the
  members still to visit as argument.  The set \<open>extent\<close> gains \<open>g\<close> before the closure is
  computed and loses it afterwards; \<open>g\<close> is never a member of \<open>extent\<close>, so \<open>extent\<close> is the same
  at the start of every round.
\<close>

fun direct_super_loop ::
  "(nat set \<Rightarrow> nat list) \<Rightarrow> (nat list \<Rightarrow> error + nat list) \<Rightarrow> (nat list \<Rightarrow> error + nat list) \<Rightarrow>
   string list \<Rightarrow> string list \<Rightarrow> int \<Rightarrow> nat set \<Rightarrow>
   nat list \<Rightarrow> nat set \<Rightarrow> formal_concept list \<Rightarrow> error + formal_concept list"
where
  "direct_super_loop set_order intention extension obj_names attr_names ctx_hash ext
      [] reps neighbors = Inr neighbors"
| "direct_super_loop set_order intention extension obj_names attr_names ctx_hash ext
      (g # gs) reps neighbors =
     (case intention (set_order (insert g ext)) of
        Inl e \<Rightarrow> Inl e
      | Inr M \<Rightarrow>
          (case extension M of
             Inl e \<Rightarrow> Inl e
           | Inr G \<Rightarrow>
               if card (reps \<inter> set G) = 1
               then (case new_concept obj_names attr_names ctx_hash G M of
                       Inl e \<Rightarrow> Inl e
                     | Inr x \<Rightarrow>
                         direct_super_loop set_order intention extension obj_names attr_names
                           ctx_hash ext gs reps (neighbors @ [x]))
               else direct_super_loop set_order intention extension obj_names attr_names
                      ctx_hash ext gs (reps - {g}) neighbors))"

definition direct_super_elements ::
  "(nat set \<Rightarrow> nat list) \<Rightarrow> nat \<Rightarrow> (nat list \<Rightarrow> error + nat list) \<Rightarrow> (nat list \<Rightarrow> error + nat list) \<Rightarrow>
   string list \<Rightarrow> string list \<Rightarrow> int \<Rightarrow> formal_concept \<Rightarrow> error + formal_concept list"
where
  "direct_super_elements set_order n intention extension obj_names attr_names ctx_hash concept =
     (let ext = extent_i concept;
          reps = {0..<n} - ext
      in direct_super_loop set_order intention extension obj_names attr_names ctx_hash ext
           (set_order reps) reps [])"

text \<open>The state of the \<^verbatim>\<open>while\<close> loop.\<close>

record lindig_state =
  concepts :: "formal_concept list"
  queue :: "formal_concept list"
  subconcepts_dict :: "(nat \<times> nat list) list"
  superconcepts_dict :: "(nat \<times> nat list) list"
  index :: "(formal_concept \<times> nat) list"

text \<open>The body of \<^verbatim>\<open>for x in dsups\<close>.\<close>

fun lindig_add :: "nat \<Rightarrow> formal_concept list \<Rightarrow> lindig_state \<Rightarrow> error + lindig_state" where
  "lindig_add c_id [] st = Inr st"
| "lindig_add c_id (x # dsups) st =
     (let st1 = (if concept_lookup (index st) x = None
                 then st\<lparr>queue := queue_add (queue st) x,
                         index := index st @ [(x, length (concepts st))],
                         concepts := concepts st @ [x]\<rparr>
                 else st)
      in case concept_lookup (index st1) x of
           None \<Rightarrow> Inl KeyError
         | Some x_id \<Rightarrow>
             lindig_add c_id dsups
               (st1\<lparr>subconcepts_dict := setdefault_append (subconcepts_dict st1) x_id c_id,
                     superconcepts_dict := setdefault_append (superconcepts_dict st1) c_id x_id\<rparr>))"

partial_function (option) lindig_loop ::
  "(nat set \<Rightarrow> nat list) \<Rightarrow> (formal_concept list \<Rightarrow> nat) \<Rightarrow> nat \<Rightarrow>
   (nat list \<Rightarrow> error + nat list) \<Rightarrow> (nat list \<Rightarrow> error + nat list) \<Rightarrow>
   string list \<Rightarrow> string list \<Rightarrow> int \<Rightarrow> lindig_state \<Rightarrow> (error + lindig_state) option"
where
  "lindig_loop set_order pop_index n intention extension obj_names attr_names ctx_hash st =
     (if length (queue st) = 0 then Some (Inr st)
      else
        (let k = pop_index (queue st) mod length (queue st);
             c = queue st ! k;
             st1 = st\<lparr>queue := take k (queue st) @ drop (Suc k) (queue st)\<rparr>
         in case concept_lookup (index st1) c of
              None \<Rightarrow> Some (Inl KeyError)
            | Some c_id \<Rightarrow>
                (case direct_super_elements set_order n intention extension
                        obj_names attr_names ctx_hash c of
                   Inl e \<Rightarrow> Some (Inl e)
                 | Inr dsups \<Rightarrow>
                     if length dsups = 0
                     then lindig_loop set_order pop_index n intention extension
                            obj_names attr_names ctx_hash
                            (st1\<lparr>superconcepts_dict :=
                                   dict_setitem (superconcepts_dict st1) c_id []\<rparr>)
                     else (case lindig_add c_id dsups st1 of
                             Inl e \<Rightarrow> Some (Inl e)
                           | Inr st2 \<Rightarrow>
                               lindig_loop set_order pop_index n intention extension
                                 obj_names attr_names ctx_hash st2))))"

declare lindig_loop.simps [code]

text \<open>
  The class \<open>ConceptLattice\<close> is not among the sources at hand; the lattice that
  \<open>lindig_algorithm\<close> returns is represented by the three arguments of its constructor.
\<close>

record concept_lattice =
  lattice_concepts :: "formal_concept list"
  lattice_subconcepts_dict :: "(nat \<times> nat list) list"
  lattice_superconcepts_dict :: "(nat \<times> nat list) list"

text \<open>
  \<^verbatim>\<open>FormalConcept(concepts[i].intent_i, concepts[i].intent, concepts[i].extent_i,
  concepts[i].extent, context_hash=context_hash)\<close>
\<close>

definition swap_concept :: "int \<Rightarrow> formal_concept \<Rightarrow> formal_concept" where
  "swap_concept ctx_hash x =
     \<lparr>extent_i = intent_i x, extent = intent x, intent_i = extent_i x, intent = extent x,
      measures = [], context_hash = Some ctx_hash, is_monotone = False\<rparr>"

definition lindig_algorithm ::
  "(nat set \<Rightarrow> nat list) \<Rightarrow> (formal_concept list \<Rightarrow> nat) \<Rightarrow> (formal_context \<Rightarrow> int) \<Rightarrow>
   'p fca_context \<Rightarrow> bool option \<Rightarrow> (error + concept_lattice) option"
where
  "lindig_algorithm set_order pop_index hash_fixed context iterate_extents =
     (case context of
        MVContext mv \<Rightarrow> Some (Inl NotImplementedError)
      | FormalContext ctx \<Rightarrow>
          (let iterate_extents =
                 (case iterate_extents of
                    None \<Rightarrow> n_objects ctx < n_attributes ctx
                  | Some b \<Rightarrow> b);
               n_objs = (if iterate_extents then n_objects ctx else n_attributes ctx);
               n_attrs = (if iterate_extents then n_attributes ctx else n_objects ctx);
               intention = (if iterate_extents then intention_i ctx else extension_i ctx);
               extension = (if iterate_extents then extension_i ctx else intention_i ctx);
               obj_names = (if iterate_extents then object_names ctx else attribute_names ctx);
               attr_names = (if iterate_extents then attribute_names ctx else object_names ctx);
               ctx_hash = hash_fixed ctx;
               M = [0..<n_attrs]
           in case extension M of
                Inl e \<Rightarrow> Some (Inl e)
              | Inr G \<Rightarrow>
                  (case new_concept obj_names attr_names ctx_hash G M of
                     Inl e \<Rightarrow> Some (Inl e)
                   | Inr c \<Rightarrow>
                       (case lindig_loop set_order pop_index n_objs intention extension
                               obj_names attr_names ctx_hash
                               \<lparr>concepts = [c], queue = [c], subconcepts_dict = [(0, [])],
                                superconcepts_dict = [], index = [(c, 0)]\<rparr> of
                          None \<Rightarrow> None
                        | Some (Inl e) \<Rightarrow> Some (Inl e)
                        | Some (Inr st) \<Rightarrow>
                            if iterate_extents
                            then Some (Inr \<lparr>lattice_concepts = concepts st,
                                   lattice_subconcepts_dict = subconcepts_dict st,
                                   lattice_superconcepts_dict = superconcepts_dict st\<rparr>)
                            else Some (Inr \<lparr>lattice_concepts = map (swap_concept ctx_hash) (concepts st),
                                   lattice_subconcepts_dict = superconcepts_dict st,
                                   lattice_superconcepts_dict = subconcepts_dict st\<rparr>)))))"

section \<open>Contexts that an algorithm does not support\<close>

text \<open>
  Claim C9.  \<open>close_by_one\<close> with \<open>iterate_extents = False\<close> on a context whose type is not
  \<open>FormalContext\<close> fails its first assertion (the \<open>AssertionError\<close> stands for the
  TypeMismatchError of the specification), and \<open>lindig_algorithm\<close> on an \<open>MVContext\<close> raises
  \<open>NotImplementedError\<close> (the UnsupportedOperationError of the specification).  Both results
  are there whatever the closure operators of the context do, so no concept has been
  computed when the error is raised.
\<close>

theorem unsupported_context_raises:
  "(iterate_extents = Some False \<and> type_of K \<noteq> FormalContextClass \<longrightarrow>
      close_by_one hash_fixed K output_as_concepts iterate_extents
        initial_combinations iter_elements_to_check = Some (Inl AssertionError)) \<and>
   (type_of K = MVContextClass \<longrightarrow>
      lindig_algorithm set_order pop_index hash_fixed K lindig_iterate_extents =
        Some (Inl NotImplementedError))"
proof (intro conjI impI)
  assume "iterate_extents = Some False \<and> type_of K \<noteq> FormalContextClass"
  then show "close_by_one hash_fixed K output_as_concepts iterate_extents
        initial_combinations iter_elements_to_check = Some (Inl AssertionError)"
    unfolding close_by_one_def by simp
next
  assume "type_of K = MVContextClass"
  then obtain mv where "K = MVContext mv"
    by (cases K) simp_all
  then show "lindig_algorithm set_order pop_index hash_fixed K lindig_iterate_extents =
        Some (Inl NotImplementedError)"
    unfolding lindig_algorithm_def by simp
qed

theorem unsupported_context_raises_witness:
  "close_by_one (\<lambda>_. 0)
     (MVContext \<lparr>mv_n_objects = 1, mv_n_attributes = 1, mv_extension_i = (\<lambda>p. Inr []),
                 mv_intention_i = (\<lambda>gs. Inr ())\<rparr>)
     True (Some False) None None = Some (Inl AssertionError) \<and>
   lindig_algorithm sorted_list_of_set (\<lambda>q. 0) (\<lambda>_. 0)
     (MVContext \<lparr>mv_n_objects = 1, mv_n_attributes = 1, mv_extension_i = (\<lambda>p. Inr []),
                 mv_intention_i = (\<lambda>gs. Inr ())\<rparr>)
     None = Some (Inl NotImplementedError)"
  using unsupported_context_raises
    [of "Some False" "MVContext \<lparr>mv_n_objects = 1, mv_n_attributes = 1,
           mv_extension_i = (\<lambda>p. Inr []), mv_intention_i = (\<lambda>gs. Inr ())\<rparr>"
        "\<lambda>_. 0" True None None sorted_list_of_set "\<lambda>q. 0" None]
  by simp

section \<open>Correctness of the algorithm of Lindig\<close>

text \<open>
  \<open>upper c A B\<close>: the closed list \<open>B\<close> is an upper neighbour of the closed list \<open>A\<close>, that is,
  \<open>B\<close> is strictly above \<open>A\<close> and no closed list lies strictly between them.
\<close>

definition upper :: "(nat list \<Rightarrow> nat list) \<Rightarrow> nat list \<Rightarrow> nat list \<Rightarrow> bool" where
  "upper c A B \<longleftrightarrow>
     c B = B \<and> set A \<subset> set B \<and>
     (\<forall>C. c C = C \<and> set A \<subset> set C \<and> set C \<subseteq> set B \<longrightarrow> C = B)"

text \<open>The neighbours that the loop of \<open>direct_super_elements\<close> accepts, as closed lists.\<close>

fun dsl :: "(nat list \<Rightarrow> nat list) \<Rightarrow> nat list \<Rightarrow> nat list \<Rightarrow> nat set \<Rightarrow> nat list list" where
  "dsl c A [] reps = []"
| "dsl c A (g # gs) reps =
     (if card (reps \<inter> set (c (g # A))) = 1
      then c (g # A) # dsl c A gs reps
      else dsl c A gs (reps - {g}))"

lemma nb_props:
  assumes ops: "closure_ops n h f sd c" and A: "c A = A" and g: "g < n"
  shows "set A \<subseteq> set (c (g # A))" "g \<in> set (c (g # A))" "c (c (g # A)) = c (g # A)"
proof -
  have vA: "valid n A" using ops_valid [OF ops, of A] A by simp
  have v: "valid n (g # A)" using vA g unfolding valid_def by simp
  have "set (g # A) \<subseteq> set (c (g # A))" by (rule ops_ext [OF ops v])
  then show "set A \<subseteq> set (c (g # A))" "g \<in> set (c (g # A))" by simp_all
  show "c (c (g # A)) = c (g # A)" by (rule ops_idem [OF ops])
qed

lemma nb_least:
  assumes ops: "closure_ops n h f sd c" and C: "c C = C" and AC: "set A \<subseteq> set C" and g: "g \<in> set C"
  shows "set (c (g # A)) \<subseteq> set C"
proof -
  have "set (g # A) \<subseteq> set (c C)" unfolding C using AC g by simp
  then have "set (c (g # A)) \<subseteq> set (c C)" by (rule ops_mono [OF ops])
  then show ?thesis unfolding C .
qed

lemma card_one_iff:
  assumes "finite R" "g \<in> R \<inter> S"
  shows "card (R \<inter> S) = 1 \<longleftrightarrow> R \<inter> S = {g}"
proof
  assume "card (R \<inter> S) = 1"
  then obtain x where x: "R \<inter> S = {x}" by (auto simp: card_1_singleton_iff)
  then have "g = x" using assms(2) by simp
  then show "R \<inter> S = {g}" using x by simp
next
  assume "R \<inter> S = {g}"
  then show "card (R \<inter> S) = 1" by simp
qed

lemma dsl_sound:
  assumes ops: "closure_ops n h f sd c" and A: "c A = A"
  shows "distinct gs \<Longrightarrow> set gs \<subseteq> reps \<Longrightarrow> reps \<subseteq> {i. i < n \<and> i \<notin> set A} \<Longrightarrow>
     \<forall>x \<in> {i. i < n \<and> i \<notin> set A} - reps. \<exists>y \<in> reps. y \<in> set (c (x # A)) \<Longrightarrow>
     B \<in> set (dsl c A gs reps) \<Longrightarrow> upper c A B"
proof (induction gs arbitrary: reps)
  case Nil
  then show ?case by simp
next
  case (Cons g gs)
  let ?R0 = "{i. i < n \<and> i \<notin> set A}"
  let ?Bg = "c (g # A)"
  have gr: "g \<in> reps" using Cons.prems(2) by simp
  have gn: "g < n" and gA: "g \<notin> set A" using gr Cons.prems(3) by auto
  have fin: "finite reps"
    by (rule finite_subset [OF Cons.prems(3)]) simp
  have gB: "g \<in> reps \<inter> set ?Bg" using gr nb_props(2) [OF ops A gn] by simp
  note one = card_one_iff [OF fin gB]
  show ?case
  proof (cases "card (reps \<inter> set ?Bg) = 1")
    case True
    then have single: "reps \<inter> set ?Bg = {g}" using one by simp
    have up: "upper c A ?Bg"
      unfolding upper_def
    proof (intro conjI allI impI)
      show "c ?Bg = ?Bg" by (rule nb_props(3) [OF ops A gn])
      show "set A \<subset> set ?Bg"
        using nb_props(1,2) [OF ops A gn] gA by blast
    next
      fix C assume C: "c C = C \<and> set A \<subset> set C \<and> set C \<subseteq> set ?Bg"
      then have cC: "c C = C" and AC: "set A \<subset> set C" and CB: "set C \<subseteq> set ?Bg"
        by simp_all
      from AC obtain x where x: "x \<in> set C" "x \<notin> set A" by blast
      have vC: "valid n C" using ops_valid [OF ops, of C] cC by simp
      have xn: "x < n" using vC x(1) unfolding valid_def by blast
      have gC: "g \<in> set C"
      proof (cases "x \<in> reps")
        case True
        then have "x \<in> reps \<inter> set ?Bg" using x(1) CB by blast
        then show ?thesis using single x(1) by simp
      next
        case False
        then have "x \<in> ?R0 - reps" using xn x(2) by simp
        then obtain y where y: "y \<in> reps" "y \<in> set (c (x # A))"
          using Cons.prems(4) by blast
        have "set (c (x # A)) \<subseteq> set C"
          using ops cC _ x(1) by (rule nb_least) (use AC in blast)
        then have "y \<in> reps \<inter> set ?Bg" using y CB by blast
        then have "y = g" using single by simp
        then show ?thesis using y(2) \<open>set (c (x # A)) \<subseteq> set C\<close> by blast
      qed
      have "set ?Bg \<subseteq> set C"
        using ops cC _ gC by (rule nb_least) (use AC in blast)
      then have e: "set C = set ?Bg" using CB by blast
      show "C = ?Bg"
        using ops cC nb_props(3) [OF ops A gn] e by (rule closed_eqI)
    qed
    from Cons.prems(5) True have "B = ?Bg \<or> B \<in> set (dsl c A gs reps)" by simp
    then show ?thesis
    proof
      assume "B = ?Bg" then show ?thesis using up by simp
    next
      assume "B \<in> set (dsl c A gs reps)"
      moreover have "distinct gs" "set gs \<subseteq> reps" using Cons.prems(1,2) by simp_all
      ultimately show ?thesis
        using Cons.prems(3,4) by (intro Cons.IH [of reps])
    qed
  next
    case False
    then have "reps \<inter> set ?Bg \<noteq> {g}" using one by simp
    then obtain z where z: "z \<in> reps" "z \<in> set ?Bg" "z \<noteq> g" using gB by blast
    have B: "B \<in> set (dsl c A gs (reps - {g}))" using Cons.prems(5) False by simp
    have 1: "distinct gs" using Cons.prems(1) by simp
    have 2: "set gs \<subseteq> reps - {g}" using Cons.prems(1,2) by auto
    have 3: "reps - {g} \<subseteq> ?R0" using Cons.prems(3) by blast
    have 4: "\<forall>x \<in> ?R0 - (reps - {g}). \<exists>y \<in> reps - {g}. y \<in> set (c (x # A))"
    proof
      fix x assume x: "x \<in> ?R0 - (reps - {g})"
      show "\<exists>y \<in> reps - {g}. y \<in> set (c (x # A))"
      proof (cases "x = g")
        case True
        then show ?thesis using z by blast
      next
        case False
        then have "x \<in> ?R0 - reps" using x by blast
        then obtain y where y: "y \<in> reps" "y \<in> set (c (x # A))"
          using Cons.prems(4) by blast
        show ?thesis
        proof (cases "y = g")
          case True
          have xn: "x < n" using x by simp
          have "set ?Bg \<subseteq> set (c (x # A))"
            using ops nb_props(3) [OF ops A xn] nb_props(1) [OF ops A xn]
            by (rule nb_least) (use y True in simp)
          then show ?thesis using z by blast
        next
          case False
          then show ?thesis using y by blast
        qed
      qed
    qed
    show ?thesis using 1 2 3 4 B by (rule Cons.IH)
  qed
qed

lemma upper_nb:
  assumes ops: "closure_ops n h f sd c" and A: "c A = A" and up: "upper c A N"
    and g: "g \<in> set N" "g \<notin> set A"
  shows "c (g # A) = N"
proof -
  have cN: "c N = N" and AN: "set A \<subset> set N"
    and least: "\<And>C. c C = C \<Longrightarrow> set A \<subset> set C \<Longrightarrow> set C \<subseteq> set N \<Longrightarrow> C = N"
    using up unfolding upper_def by blast+
  have vN: "valid n N" using ops_valid [OF ops, of N] cN by simp
  have gn: "g < n" using vN g(1) unfolding valid_def by blast
  have "set (c (g # A)) \<subseteq> set N"
    using ops cN _ g(1) by (rule nb_least) (use AN in blast)
  moreover have "set A \<subset> set (c (g # A))"
    using nb_props(1,2) [OF ops A gn] g(2) by blast
  ultimately show ?thesis
    using least [OF nb_props(3) [OF ops A gn]] by simp
qed

lemma dsl_complete:
  assumes ops: "closure_ops n h f sd c" and A: "c A = A" and up: "upper c A N"
  shows "distinct gs \<Longrightarrow> set gs \<subseteq> reps \<Longrightarrow> reps \<subseteq> {i. i < n \<and> i \<notin> set A} \<Longrightarrow>
     \<exists>x \<in> set gs. x \<in> set N \<Longrightarrow>
     N \<in> set (dsl c A gs reps) \<or> (\<exists>x \<in> reps - set gs. x \<in> set N)"
proof (induction gs arbitrary: reps)
  case Nil
  then show ?case by simp
next
  case (Cons g gs)
  let ?Bg = "c (g # A)"
  have gr: "g \<in> reps" using Cons.prems(2) by simp
  have gn: "g < n" and gA: "g \<notin> set A" using gr Cons.prems(3) by auto
  have fin: "finite reps"
    by (rule finite_subset [OF Cons.prems(3)]) simp
  have gB: "g \<in> reps \<inter> set ?Bg" using gr nb_props(2) [OF ops A gn] by simp
  note one = card_one_iff [OF fin gB]
  have dg: "distinct gs" and gg: "g \<notin> set gs" using Cons.prems(1) by simp_all
  show ?case
  proof (cases "card (reps \<inter> set ?Bg) = 1")
    case True
    show ?thesis
    proof (cases "g \<in> set N")
      case True
      then have "?Bg = N" using upper_nb [OF ops A up _ gA] by simp
      then show ?thesis using \<open>card (reps \<inter> set ?Bg) = 1\<close> by simp
    next
      case False
      then have ex: "\<exists>x \<in> set gs. x \<in> set N" using Cons.prems(4) by auto
      have "set gs \<subseteq> reps" using Cons.prems(2) by simp
      then have "N \<in> set (dsl c A gs reps) \<or> (\<exists>x \<in> reps - set gs. x \<in> set N)"
        using dg Cons.prems(3) ex by (intro Cons.IH)
      then show ?thesis
      proof
        assume "N \<in> set (dsl c A gs reps)"
        then show ?thesis using True by simp
      next
        assume "\<exists>x \<in> reps - set gs. x \<in> set N"
        then obtain x where "x \<in> reps - set gs" "x \<in> set N" by blast
        then have "x \<in> reps - set (g # gs)" using False by auto
        then show ?thesis using \<open>x \<in> set N\<close> by blast
      qed
    qed
  next
    case False
    then have ne: "reps \<inter> set ?Bg \<noteq> {g}" using one by simp
    have d: "dsl c A (g # gs) reps = dsl c A gs (reps - {g})" using False by simp
    show ?thesis
    proof (cases "\<exists>x \<in> set gs. x \<in> set N")
      case True
      have "set gs \<subseteq> reps - {g}" using Cons.prems(2) gg by auto
      moreover have "reps - {g} \<subseteq> {i. i < n \<and> i \<notin> set A}" using Cons.prems(3) by blast
      ultimately have "N \<in> set (dsl c A gs (reps - {g})) \<or> (\<exists>x \<in> reps - {g} - set gs. x \<in> set N)"
        using dg True by (intro Cons.IH)
      then show ?thesis unfolding d by auto
    next
      case False
      then have gN: "g \<in> set N" using Cons.prems(4) by auto
      then have e: "?Bg = N" using upper_nb [OF ops A up _ gA] by simp
      obtain z where z: "z \<in> reps" "z \<in> set ?Bg" "z \<noteq> g" using ne gB by blast
      have "z \<notin> set gs" using False z(2) e by auto
      then have "z \<in> reps - set (g # gs)" using z by simp
      then show ?thesis using z(2) e by blast
    qed
  qed
qed

lemma dsl_upper:
  assumes ops: "closure_ops n h f sd c" and A: "c A = A"
    and gs: "distinct gs" "set gs = {i. i < n \<and> i \<notin> set A}"
  shows "set (dsl c A gs (set gs)) = {B. upper c A B}"
proof (rule equalityI; rule subsetI)
  fix B assume "B \<in> set (dsl c A gs (set gs))"
  then have "upper c A B"
    using gs by (intro dsl_sound [OF ops A, of gs "set gs"]) simp_all
  then show "B \<in> {B. upper c A B}" by simp
next
  fix N assume "N \<in> {B. upper c A B}"
  then have up: "upper c A N" by simp
  then have cN: "c N = N" and AN: "set A \<subset> set N" unfolding upper_def by simp_all
  from AN obtain x where x: "x \<in> set N" "x \<notin> set A" by blast
  have vN: "valid n N" using ops_valid [OF ops, of N] cN by simp
  have "x < n" using vN x(1) unfolding valid_def by blast
  then have "x \<in> set gs" using gs(2) x(2) by simp
  then have ex: "\<exists>x \<in> set gs. x \<in> set N" using x(1) by blast
  have "N \<in> set (dsl c A gs (set gs)) \<or> (\<exists>x \<in> set gs - set gs. x \<in> set N)"
    using gs ex by (intro dsl_complete [OF ops A up]) simp_all
  then show "N \<in> set (dsl c A gs (set gs))" by simp
qed

text \<open>
  What the proof asks of the parameters: \<open>set_order\<close> lists every finite set without
  repetition, and the name lists are long enough for the indexes that occur.
\<close>

definition order_ok :: "(nat set \<Rightarrow> nat list) \<Rightarrow> bool" where
  "order_ok set_order \<longleftrightarrow> (\<forall>S. finite S \<longrightarrow> set (set_order S) = S \<and> distinct (set_order S))"

definition names_ok :: "nat \<Rightarrow> string list \<Rightarrow> string list \<Rightarrow> (nat list \<Rightarrow> nat list) \<Rightarrow> bool" where
  "names_ok n obj_names attr_names sd \<longleftrightarrow>
     n \<le> length obj_names \<and> (\<forall>xs. \<forall>m \<in> set (sd xs). m < length attr_names)"

text \<open>The concept of a closed list \<open>G\<close>.\<close>

definition closed_concept ::
  "string list \<Rightarrow> string list \<Rightarrow> int \<Rightarrow> (nat list \<Rightarrow> nat list) \<Rightarrow> nat list \<Rightarrow> formal_concept" where
  "closed_concept obj_names attr_names ctx_hash sd G =
     concept_of obj_names attr_names ctx_hash (G, sd G)"

lemma closed_concept_extent: "extent_i (closed_concept on an hs sd G) = set G"
  unfolding closed_concept_def by (simp add: concept_of_sel)

lemma new_concept_ok:
  assumes nm: "names_ok n on an sd" and v: "valid n G"
  shows "new_concept on an hs G (sd G) = Inr (closed_concept on an hs sd G)"
proof -
  have "\<forall>g \<in> set G. g < length on"
    using nm v unfolding names_ok_def valid_def by auto
  then have 1: "items_at on G = Inr (map (\<lambda>g. on ! g) G)" by (rule items_at_ok)
  have "\<forall>m \<in> set (sd G). m < length an"
    using nm unfolding names_ok_def by blast
  then have 2: "items_at an (sd G) = Inr (map (\<lambda>m. an ! m) (sd G))" by (rule items_at_ok)
  show ?thesis
    unfolding new_concept_def closed_concept_def concept_of_def by (simp add: 1 2)
qed

lemma direct_super_loop_eq:
  assumes ops: "closure_ops n h f sd c" and ord: "order_ok so" and nm: "names_ok n on an sd"
    and A: "c A = A"
  shows "\<forall>g \<in> set gs. g < n \<Longrightarrow>
     direct_super_loop so f h on an hs (set A) gs reps nbrs =
       Inr (nbrs @ map (closed_concept on an hs sd) (dsl c A gs reps))"
proof (induction gs arbitrary: reps nbrs)
  case Nil
  then show ?case by simp
next
  case (Cons g gs)
  let ?xs = "so (insert g (set A))"
  let ?G = "c (g # A)"
  have gn: "g < n" using Cons.prems by simp
  have vA: "valid n A" using ops_valid [OF ops, of A] A by simp
  have sx: "set ?xs = set (g # A)"
    using ord unfolding order_ok_def by simp
  have vx: "valid n ?xs"
    unfolding valid_def sx using vA gn unfolding valid_def by simp
  have cx: "c ?xs = ?G" using ops vx sx by (rule ops_cong)
  have f: "f ?xs = Inr (sd ?xs)" and h: "h (sd ?xs) = Inr (c ?xs)"
    using ops_calls [OF ops vx] by simp_all
  have sdx: "sd ?xs = sd ?G"
    using ops_sd [OF ops vx] cx by simp
  have f': "f ?xs = Inr (sd ?G)" using f sdx by simp
  have h': "h (sd ?G) = Inr ?G" using h sdx cx by simp
  have nc: "new_concept on an hs ?G (sd ?G) = Inr (closed_concept on an hs sd ?G)"
    using nm ops_valid [OF ops] by (rule new_concept_ok)
  have rest: "\<And>reps nbrs. direct_super_loop so f h on an hs (set A) gs reps nbrs =
       Inr (nbrs @ map (closed_concept on an hs sd) (dsl c A gs reps))"
    using Cons.prems by (intro Cons.IH) simp
  show ?case
  proof (cases "card (reps \<inter> set ?G) = 1")
    case True
    have d: "dsl c A (g # gs) reps = ?G # dsl c A gs reps"
      using True by simp
    have "direct_super_loop so f h on an hs (set A) (g # gs) reps nbrs =
        direct_super_loop so f h on an hs (set A) gs reps (nbrs @ [closed_concept on an hs sd ?G])"
      using True by (simp add: f' h' nc)
    then show ?thesis
      unfolding d by (simp add: rest)
  next
    case False
    have d: "dsl c A (g # gs) reps = dsl c A gs (reps - {g})"
      using False by simp
    have "direct_super_loop so f h on an hs (set A) (g # gs) reps nbrs =
        direct_super_loop so f h on an hs (set A) gs (reps - {g}) nbrs"
      using False by (simp add: f' h')
    then show ?thesis
      unfolding d by (simp add: rest)
  qed
qed

lemma direct_super_elements_eq:
  assumes ops: "closure_ops n h f sd c" and ord: "order_ok so" and nm: "names_ok n on an sd"
    and A: "c A = A" and x: "extent_i x = set A"
  shows "\<exists>Bs. direct_super_elements so n f h on an hs x =
            Inr (map (closed_concept on an hs sd) Bs) \<and> set Bs = {B. upper c A B}"
proof -
  let ?R = "{0..<n} - set A"
  let ?gs = "so ?R"
  have so: "set ?gs = ?R" "distinct ?gs"
    using ord unfolding order_ok_def by simp_all
  have R: "?R = {i. i < n \<and> i \<notin> set A}" by auto
  have "\<forall>g \<in> set ?gs. g < n" unfolding so(1) by simp
  then have e: "direct_super_loop so f h on an hs (set A) ?gs ?R [] =
       Inr ([] @ map (closed_concept on an hs sd) (dsl c A ?gs ?R))"
    by (rule direct_super_loop_eq [OF ops ord nm A])
  have "set (dsl c A ?gs (set ?gs)) = {B. upper c A B}"
    using ops A so(2) by (rule dsl_upper) (rule trans [OF so(1) R])
  then have u: "set (dsl c A ?gs ?R) = {B. upper c A B}"
    unfolding so(1) .
  have "direct_super_elements so n f h on an hs x =
      Inr (map (closed_concept on an hs sd) (dsl c A ?gs ?R))"
    unfolding direct_super_elements_def x Let_def e by simp
  then show ?thesis using u by blast
qed

text \<open>
  The invariant of the \<^verbatim>\<open>while\<close> loop: the concepts found so far are the concepts of the
  closed lists \<open>Gs\<close>, indexed by position, and the queue holds those of the closed lists \<open>Q\<close>.
\<close>

definition lindig_weak ::
  "(nat list \<Rightarrow> nat list) \<Rightarrow> (nat list \<Rightarrow> formal_concept) \<Rightarrow> nat list list \<Rightarrow> nat list list \<Rightarrow>
   lindig_state \<Rightarrow> bool" where
  "lindig_weak c K Gs Q st \<longleftrightarrow>
     concepts st = map K Gs \<and> queue st = map K Q \<and>
     index st = zip (map K Gs) [0..<length Gs] \<and>
     distinct Gs \<and> distinct Q \<and> set Q \<subseteq> set Gs \<and> (\<forall>G \<in> set Gs. c G = G)"

definition lindig_inv ::
  "(nat list \<Rightarrow> nat list) \<Rightarrow> (nat list \<Rightarrow> formal_concept) \<Rightarrow> nat list list \<Rightarrow> nat list list \<Rightarrow>
   lindig_state \<Rightarrow> bool" where
  "lindig_inv c K Gs Q st \<longleftrightarrow>
     lindig_weak c K Gs Q st \<and> c [] \<in> set Gs \<and>
     (\<forall>G \<in> set Gs - set Q. \<forall>B. upper c G B \<longrightarrow> B \<in> set Gs)"

lemma weakD:
  assumes "lindig_weak c K Gs Q st"
  shows "concepts st = map K Gs" "queue st = map K Q"
    "index st = zip (map K Gs) [0..<length Gs]"
    "distinct Gs" "distinct Q" "set Q \<subseteq> set Gs" "\<And>G. G \<in> set Gs \<Longrightarrow> c G = G"
  using assms unfolding lindig_weak_def by blast+

lemma closed_set_mem:
  assumes ops: "closure_ops n h f sd c" and cl: "\<And>G. G \<in> set Gs \<Longrightarrow> c G = G" and B: "c B = B"
  shows "set B \<in> set ` set Gs \<longleftrightarrow> B \<in> set Gs"
proof
  assume "set B \<in> set ` set Gs"
  then obtain G where G: "G \<in> set Gs" "set B = set G" by blast
  have "B = G" using ops B cl [OF G(1)] G(2) by (rule closed_eqI)
  then show "B \<in> set Gs" using G(1) by simp
next
  assume "B \<in> set Gs"
  then show "set B \<in> set ` set Gs" by (rule imageI)
qed

lemma concept_mem:
  assumes ops: "closure_ops n h f sd c" and K: "\<And>G. extent_i (K G) = set G"
    and cl: "\<And>G. G \<in> set Gs \<Longrightarrow> c G = G" and B: "c B = B"
  shows "(\<exists>G \<in> set Gs. fields_eq (K G) (K B)) \<longleftrightarrow> B \<in> set Gs"
proof
  assume "\<exists>G \<in> set Gs. fields_eq (K G) (K B)"
  then obtain G where G: "G \<in> set Gs" "fields_eq (K G) (K B)" by blast
  have "extent_i (K G) = extent_i (K B)" using G(2) unfolding fields_eq_def by blast
  then have "set B = set G" unfolding K by (rule sym)
  then have "set B \<in> set ` set Gs" using G(1) by blast
  then show "B \<in> set Gs" using closed_set_mem [OF ops cl B] by simp
next
  assume "B \<in> set Gs"
  moreover have "fields_eq (K B) (K B)" unfolding fields_eq_def by simp
  ultimately show "\<exists>G \<in> set Gs. fields_eq (K G) (K B)" by blast
qed

lemma lookup_None_iff:
  assumes ops: "closure_ops n h f sd c" and K: "\<And>G. extent_i (K G) = set G"
    and w: "lindig_weak c K Gs Q st" and B: "c B = B"
  shows "concept_lookup (index st) (K B) = None \<longleftrightarrow> B \<notin> set Gs"
proof -
  have f: "fst ` set (zip (map K Gs) [0..<length Gs]) = set (map K Gs)"
  proof -
    have m: "map fst (zip (map K Gs) [0..<length Gs]) = map K Gs" by simp
    show ?thesis by (simp only: set_map [symmetric] m)
  qed
  have "concept_lookup (index st) (K B) = None \<longleftrightarrow>
      \<not> (\<exists>p \<in> set (zip (map K Gs) [0..<length Gs]). fields_eq (fst p) (K B))"
    unfolding concept_lookup_def weakD(3) [OF w] by (auto simp add: find_None_iff)
  also have "\<dots> \<longleftrightarrow> \<not> (\<exists>k \<in> fst ` set (zip (map K Gs) [0..<length Gs]). fields_eq k (K B))"
    by blast
  also have "\<dots> \<longleftrightarrow> \<not> (\<exists>G \<in> set Gs. fields_eq (K G) (K B))"
    unfolding f by simp
  finally show ?thesis
    using concept_mem [OF ops K weakD(7) [OF w] B] by simp
qed

lemma queue_add_new:
  assumes ops: "closure_ops n h f sd c" and K: "\<And>G. extent_i (K G) = set G"
    and cl: "\<And>G. G \<in> set Q \<Longrightarrow> c G = G" and B: "c B = B" and new: "B \<notin> set Q"
  shows "queue_add (map K Q) (K B) = map K (Q @ [B])"
proof -
  have "\<not> (\<exists>G \<in> set Q. fields_eq (K G) (K B))"
    using concept_mem [OF ops K cl B] new by simp
  then have "\<not> list_ex (\<lambda>y. fields_eq y (K B)) (map K Q)"
    unfolding list_ex_iff by simp
  then show ?thesis
    unfolding queue_add_def by simp
qed

lemma weak_dicts:
  assumes "lindig_weak c K Gs Q st"
  shows "lindig_weak c K Gs Q (st\<lparr>subconcepts_dict := a, superconcepts_dict := b\<rparr>)"
    "lindig_weak c K Gs Q (st\<lparr>superconcepts_dict := b\<rparr>)"
  using assms unfolding lindig_weak_def by simp_all

lemma lindig_add_ok:
  assumes ops: "closure_ops n h f sd c" and K: "\<And>G. extent_i (K G) = set G"
  shows "lindig_weak c K Gs Q st \<Longrightarrow> \<forall>B \<in> set Bs. c B = B \<Longrightarrow>
     \<exists>st' new. lindig_add c_id (map K Bs) st = Inr st' \<and> distinct new \<and>
        set new = set Bs - set Gs \<and> lindig_weak c K (Gs @ new) (Q @ new) st'"
proof (induction Bs arbitrary: Gs Q st)
  case Nil
  have "lindig_add c_id (map K []) st = Inr st \<and> distinct [] \<and> set [] = set [] - set Gs \<and>
      lindig_weak c K (Gs @ []) (Q @ []) st"
    using Nil.prems(1) by simp
  then show ?case by blast
next
  case (Cons B Bs)
  have B: "c B = B" and Bs: "\<forall>B \<in> set Bs. c B = B" using Cons.prems(2) by simp_all
  note w = Cons.prems(1)
  show ?case
  proof (cases "B \<in> set Gs")
    case True
    then have l: "concept_lookup (index st) (K B) \<noteq> None"
      using lookup_None_iff [OF ops K w B] by simp
    then obtain x_id where x: "concept_lookup (index st) (K B) = Some x_id" by blast
    let ?st = "st\<lparr>subconcepts_dict := setdefault_append (subconcepts_dict st) x_id c_id,
                   superconcepts_dict := setdefault_append (superconcepts_dict st) c_id x_id\<rparr>"
    have step: "lindig_add c_id (map K (B # Bs)) st = lindig_add c_id (map K Bs) ?st"
      using x by (simp add: Let_def)
    have "lindig_weak c K Gs Q ?st" using w by (rule weak_dicts(1))
    then obtain st' new where r: "lindig_add c_id (map K Bs) ?st = Inr st'" "distinct new"
      "set new = set Bs - set Gs" "lindig_weak c K (Gs @ new) (Q @ new) st'"
      using Cons.IH [OF _ Bs] by blast
    have "set new = set (B # Bs) - set Gs" using r(3) True by auto
    then show ?thesis using step r(1,2,4) by metis
  next
    case False
    then have l: "concept_lookup (index st) (K B) = None"
      using lookup_None_iff [OF ops K w B] by simp
    have BQ: "B \<notin> set Q" using False weakD(6) [OF w] by blast
    have clQ: "\<And>G. G \<in> set Q \<Longrightarrow> c G = G"
      using weakD(6,7) [OF w] by blast
    let ?st1 = "st\<lparr>queue := queue_add (queue st) (K B),
                   index := index st @ [(K B, length (concepts st))],
                   concepts := concepts st @ [K B]\<rparr>"
    have q1: "queue ?st1 = map K (Q @ [B])"
      using queue_add_new [OF ops K clQ B BQ] weakD(2) [OF w] by simp
    have i1: "index ?st1 = zip (map K (Gs @ [B])) [0..<length (Gs @ [B])]"
      using weakD(1,3) [OF w] by simp
    have c1: "concepts ?st1 = map K (Gs @ [B])"
      using weakD(1) [OF w] by simp
    have w1: "lindig_weak c K (Gs @ [B]) (Q @ [B]) ?st1"
      unfolding lindig_weak_def
      using q1 i1 c1 weakD(4,5,6,7) [OF w] False BQ B by auto
    have "concept_lookup (index ?st1) (K B) \<noteq> None"
      using lookup_None_iff [OF ops K w1 B] by simp
    then obtain x_id where x: "concept_lookup (index ?st1) (K B) = Some x_id" by blast
    let ?st = "?st1\<lparr>subconcepts_dict := setdefault_append (subconcepts_dict ?st1) x_id c_id,
                   superconcepts_dict := setdefault_append (superconcepts_dict ?st1) c_id x_id\<rparr>"
    have step: "lindig_add c_id (map K (B # Bs)) st = lindig_add c_id (map K Bs) ?st"
      using l x by (simp add: Let_def)
    have "lindig_weak c K (Gs @ [B]) (Q @ [B]) ?st" using w1 by (rule weak_dicts(1))
    then obtain st' new where r: "lindig_add c_id (map K Bs) ?st = Inr st'" "distinct new"
      "set new = set Bs - set (Gs @ [B])" "lindig_weak c K ((Gs @ [B]) @ new) ((Q @ [B]) @ new) st'"
      using Cons.IH [OF _ Bs] by blast
    have 1: "distinct (B # new)" using r(2,3) by simp
    have 2: "set (B # new) = set (B # Bs) - set Gs" using r(3) False by auto
    have 3: "lindig_weak c K (Gs @ (B # new)) (Q @ (B # new)) st'" using r(4) by simp
    show ?thesis using step r(1) 1 2 3 by metis
  qed
qed

lemma lindig_loop_empty:
  "queue st = [] \<Longrightarrow> lindig_loop so pidx n f h on an hs st = Some (Inr st)"
  by (subst lindig_loop.simps) simp

lemma lindig_loop_step:
  assumes "queue st \<noteq> []"
    and "k = pidx (queue st) mod length (queue st)"
    and "st1 = st\<lparr>queue := take k (queue st) @ drop (Suc k) (queue st)\<rparr>"
    and "concept_lookup (index st1) (queue st ! k) = Some c_id"
    and "direct_super_elements so n f h on an hs (queue st ! k) = Inr dsups"
  shows "lindig_loop so pidx n f h on an hs st =
     (if dsups = []
      then lindig_loop so pidx n f h on an hs
             (st1\<lparr>superconcepts_dict := dict_setitem (superconcepts_dict st1) c_id []\<rparr>)
      else (case lindig_add c_id dsups st1 of
              Inl e \<Rightarrow> Some (Inl e)
            | Inr st2 \<Rightarrow> lindig_loop so pidx n f h on an hs st2))"
  using assms(1,4,5) unfolding assms(2,3)
  by (subst lindig_loop.simps) (simp add: Let_def)

lemma pop_lists:
  assumes "distinct Q" "k < length Q"
  shows "distinct (take k Q @ drop (Suc k) Q)"
    "set (take k Q @ drop (Suc k) Q) = set Q - {Q ! k}"
    "length (take k Q @ drop (Suc k) Q) < length Q"
proof -
  have Q: "Q = take k Q @ (Q ! k # drop (Suc k) Q)"
    using assms(2) by (simp add: id_take_nth_drop [symmetric])
  have d: "distinct (take k Q @ (Q ! k # drop (Suc k) Q))"
    using assms(1) Q by simp
  then show "distinct (take k Q @ drop (Suc k) Q)" by simp
  have "set Q = set (take k Q @ (Q ! k # drop (Suc k) Q))" using Q by simp
  then show "set (take k Q @ drop (Suc k) Q) = set Q - {Q ! k}"
    using d by auto
  show "length (take k Q @ drop (Suc k) Q) < length Q"
    using assms(2) by simp
qed

lemma lindig_inv_pop:
  assumes inv: "lindig_inv c K Gs Q st" and k: "k < length Q"
    and up: "\<forall>B. upper c (Q ! k) B \<longrightarrow> B \<in> set Gs'" and sub: "set Gs \<subseteq> set Gs'"
    and w: "lindig_weak c K Gs' Q' st'" and Q': "set Q' \<inter> set Gs = set Q - {Q ! k}"
    and new: "set Gs' - set Gs \<subseteq> set Q'"
  shows "lindig_inv c K Gs' Q' st'"
  unfolding lindig_inv_def
proof (intro conjI ballI allI impI)
  show "lindig_weak c K Gs' Q' st'" by (rule w)
  show "c [] \<in> set Gs'" using inv sub unfolding lindig_inv_def by blast
next
  fix G B assume G: "G \<in> set Gs' - set Q'" and B: "upper c G B"
  have old: "\<And>G B. G \<in> set Gs - set Q \<Longrightarrow> upper c G B \<Longrightarrow> B \<in> set Gs"
    using inv unfolding lindig_inv_def by blast
  have ws: "set Q' \<subseteq> set Gs'" using weakD(6) [OF w] .
  show "B \<in> set Gs'"
  proof (cases "G = Q ! k")
    case True
    then show ?thesis using up B by blast
  next
    case False
    show ?thesis
    proof (cases "G \<in> set Gs")
      case True
      then have "G \<notin> set Q" using G Q' False by blast
      then have "B \<in> set Gs" using old True B by blast
      then show ?thesis using sub by blast
    next
      case False
      then have "G \<in> set Q'" using G new by blast
      then show ?thesis using G by blast
    qed
  qed
qed


lemma lindig_loop_correct:
  assumes ops: "closure_ops n h f sd c" and ord: "order_ok so" and nm: "names_ok n on an sd"
    and Kd: "K = closed_concept on an hs sd"
  shows "lindig_inv c K Gs Q st \<Longrightarrow>
     \<exists>st' Gs'. lindig_loop so pidx n f h on an hs st = Some (Inr st') \<and> lindig_inv c K Gs' [] st'"
proof (induction "card (universe n - set Gs)" arbitrary: Gs Q st rule: less_induct)
  case less
  note outer = less.hyps
  have K: "\<And>G. extent_i (K G) = set G"
    unfolding Kd by (rule closed_concept_extent)
  show ?case using less.prems
  proof (induction "length Q" arbitrary: Q st rule: less_induct)
    case less
    note inv = less.prems
    have w: "lindig_weak c K Gs Q st" using inv unfolding lindig_inv_def by blast
    show ?case
    proof (cases "Q = []")
      case True
      then have "queue st = []" using weakD(2) [OF w] by simp
      then have "lindig_loop so pidx n f h on an hs st = Some (Inr st)"
        by (rule lindig_loop_empty)
      then show ?thesis using inv True by blast
    next
      case False
      let ?q = "queue st"
      define k where "k = pidx ?q mod length ?q"
      define st1 where "st1 = st\<lparr>queue := take k ?q @ drop (Suc k) ?q\<rparr>"
      let ?Q1 = "take k Q @ drop (Suc k) Q"
      have q: "?q = map K Q" by (rule weakD(2) [OF w])
      have qne: "?q \<noteq> []" using False q by simp
      have kl: "k < length Q" unfolding k_def q using False by simp
      have qk: "?q ! k = K (Q ! k)" unfolding q using kl by simp
      have GQ: "Q ! k \<in> set Q" using kl by simp
      then have GG: "Q ! k \<in> set Gs" using weakD(6) [OF w] by blast
      have clG: "c (Q ! k) = Q ! k" by (rule weakD(7) [OF w GG])
      have q1: "queue st1 = map K ?Q1"
        unfolding st1_def q by (simp add: take_map drop_map)
      note pl = pop_lists [OF weakD(5) [OF w] kl]
      have w1: "lindig_weak c K Gs ?Q1 st1"
        unfolding lindig_weak_def
        using q1 weakD(1,3,4,6,7) [OF w] pl(1,2) unfolding st1_def by auto
      have "concept_lookup (index st1) (K (Q ! k)) \<noteq> None"
        using lookup_None_iff [OF ops K w1 clG] GG by simp
      then obtain c_id where lk: "concept_lookup (index st1) (?q ! k) = Some c_id"
        unfolding qk by blast
      obtain Bs where dse: "direct_super_elements so n f h on an hs (?q ! k) = Inr (map K Bs)"
        and Bs: "set Bs = {B. upper c (Q ! k) B}"
        using direct_super_elements_eq [OF ops ord nm clG, of "?q ! k" hs] K unfolding qk Kd
        by blast
      note step = lindig_loop_step [where pidx = pidx and st = st and k = k, OF qne k_def st1_def lk dse]
      show ?thesis
      proof (cases "Bs = []")
        case True
        let ?st2 = "st1\<lparr>superconcepts_dict := dict_setitem (superconcepts_dict st1) c_id []\<rparr>"
        have e: "lindig_loop so pidx n f h on an hs st = lindig_loop so pidx n f h on an hs ?st2"
          using step True by simp
        have w2: "lindig_weak c K Gs ?Q1 ?st2" using w1 by (rule weak_dicts(2))
        have up: "\<forall>B. upper c (Q ! k) B \<longrightarrow> B \<in> set Gs" using Bs True by simp
        have Q': "set ?Q1 \<inter> set Gs = set Q - {Q ! k}"
          unfolding pl(2) using weakD(6) [OF w] by blast
        have inv2: "lindig_inv c K Gs ?Q1 ?st2"
          using inv kl up _ w2 Q' by (rule lindig_inv_pop) simp_all
        show ?thesis
          unfolding e using pl(3) inv2 by (rule less.hyps)
      next
        case False
        have clB: "\<forall>B \<in> set Bs. c B = B" unfolding Bs upper_def by simp
        obtain st2 new where add: "lindig_add c_id (map K Bs) st1 = Inr st2"
          and dn: "distinct new" and sn: "set new = set Bs - set Gs"
          and w2: "lindig_weak c K (Gs @ new) (?Q1 @ new) st2"
          using lindig_add_ok [OF ops K w1 clB] by blast
        have e: "lindig_loop so pidx n f h on an hs st = lindig_loop so pidx n f h on an hs st2"
          using step False add by simp
        have up: "\<forall>B. upper c (Q ! k) B \<longrightarrow> B \<in> set (Gs @ new)"
          using Bs sn by auto
        have Q': "set (?Q1 @ new) \<inter> set Gs = set Q - {Q ! k}"
          using pl(2) sn weakD(6) [OF w] by auto
        have inv2: "lindig_inv c K (Gs @ new) (?Q1 @ new) st2"
          using inv kl up _ w2 Q' by (rule lindig_inv_pop) auto
        show ?thesis
        proof (cases "new = []")
          case True
          have inv3: "lindig_inv c K Gs ?Q1 st2" using inv2 True by simp
          show ?thesis
            unfolding e using pl(3) inv3 by (rule less.hyps)
        next
          case False
          then obtain B where B: "B \<in> set new" by (cases new) auto
          then have "B \<in> set Bs" "B \<notin> set Gs" using sn by auto
          then have "c B = B" using clB by blast
          then have "B \<in> universe n" using closed_in_universe [OF ops, of B] by simp
          then have "universe n - set (Gs @ new) \<subset> universe n - set Gs"
            using B \<open>B \<notin> set Gs\<close> by auto
          then have "card (universe n - set (Gs @ new)) < card (universe n - set Gs)"
            using finite_universe by (intro psubset_card_mono) simp_all
          then show ?thesis
            unfolding e using inv2 by (rule outer)
        qed
      qed
    qed
  qed
qed

lemma upper_exists:
  assumes ops: "closure_ops n h f sd c" and A: "c A = A" and C: "c C = C"
    and AC: "set A \<subset> set C"
  shows "\<exists>N. upper c A N \<and> set N \<subseteq> set C"
proof -
  define P where "P D \<longleftrightarrow> c D = D \<and> set A \<subset> set D \<and> set D \<subseteq> set C" for D
  have "P C" unfolding P_def using C AC by simp
  then have m: "P (arg_min length P) \<and> (\<forall>y. P y \<longrightarrow> length (arg_min length P) \<le> length y)"
    by (rule arg_min_nat_lemma)
  define N where "N = arg_min length P"
  have PN: "P N" and least: "\<And>y. P y \<Longrightarrow> length N \<le> length y"
    using m unfolding N_def by blast+
  have cN: "c N = N" and AN: "set A \<subset> set N" and NC: "set N \<subseteq> set C"
    using PN unfolding P_def by simp_all
  have "D = N" if D: "c D = D \<and> set A \<subset> set D \<and> set D \<subseteq> set N" for D
  proof -
    have "P D" unfolding P_def using D NC by blast
    then have l: "length N \<le> length D" by (rule least)
    have dD: "distinct D" using ops_sorted [OF ops, of D] D by simp
    have dN: "distinct N" using ops_sorted [OF ops, of N] cN by simp
    have "card (set N) \<le> card (set D)"
      using l distinct_card [OF dD] distinct_card [OF dN] by simp
    moreover have "set D \<subseteq> set N" using D by simp
    ultimately have "set D = set N"
      by (intro card_seteq) simp_all
    then show ?thesis
      using ops _ cN by (rule closed_eqI [rotated 3]) (use D in simp)
  qed
  then have "upper c A N" unfolding upper_def using cN AN by blast
  then show ?thesis using NC by blast
qed

lemma lindig_all_reached:
  assumes ops: "closure_ops n h f sd c" and inv: "lindig_inv c K Gs [] st" and C: "c C = C"
  shows "A \<in> set Gs \<Longrightarrow> set A \<subseteq> set C \<Longrightarrow> C \<in> set Gs"
proof (induction "card (set C - set A)" arbitrary: A rule: less_induct)
  case less
  have w: "lindig_weak c K Gs [] st" using inv unfolding lindig_inv_def by blast
  have exp: "\<And>G B. G \<in> set Gs \<Longrightarrow> upper c G B \<Longrightarrow> B \<in> set Gs"
    using inv unfolding lindig_inv_def by simp
  have clA: "c A = A" by (rule weakD(7) [OF w less.prems(1)])
  show ?case
  proof (cases "set A = set C")
    case True
    have "A = C" using ops clA C True by (rule closed_eqI)
    then show ?thesis using less.prems(1) by simp
  next
    case False
    then have "set A \<subset> set C" using less.prems(2) by blast
    then obtain N where N: "upper c A N" "set N \<subseteq> set C"
      using upper_exists [OF ops clA C] by blast
    have NG: "N \<in> set Gs" using exp less.prems(1) N(1) by blast
    have "set A \<subset> set N" using N(1) unfolding upper_def by blast
    then have "set C - set N \<subset> set C - set A" using N(2) by blast
    then have "card (set C - set N) < card (set C - set A)"
      by (intro psubset_card_mono) simp_all
    then show ?thesis using NG N(2) by (rule less.hyps)
  qed
qed

lemma lindig_final:
  assumes ops: "closure_ops n h f sd c" and inv: "lindig_inv c K Gs [] st"
  shows "set Gs = range c"
proof (rule equalityI; rule subsetI)
  fix G assume "G \<in> set Gs"
  then have "c G = G" using inv unfolding lindig_inv_def lindig_weak_def by blast
  then show "G \<in> range c" by (metis rangeI)
next
  fix C assume "C \<in> range c"
  then obtain xs where C: "C = c xs" by blast
  have cC: "c C = C" unfolding C by (rule ops_idem [OF ops])
  have root: "c [] \<in> set Gs" using inv unfolding lindig_inv_def by blast
  have "set (c []) \<subseteq> set (c C)" by (rule ops_mono [OF ops]) simp
  then have "set (c []) \<subseteq> set C" unfolding cC .
  with root show "C \<in> set Gs"
    by (rule lindig_all_reached [OF ops inv cC])
qed

lemma lindig_inv_initial:
  assumes ops: "closure_ops n h f sd c"
  shows "lindig_inv c K [c []] [c []]
     \<lparr>concepts = [K (c [])], queue = [K (c [])], subconcepts_dict = [(0, [])],
      superconcepts_dict = [], index = [(K (c []), 0)]\<rparr>"
  unfolding lindig_inv_def lindig_weak_def using ops_idem [OF ops, of "[]"] by simp

text \<open>
  The run of the loop from the start concept, for operators that satisfy \<open>closure_ops\<close> and whose
  bottom description \<open>sd []\<close> is the list of all indexes of the other side.
\<close>

lemma lindig_run:
  assumes ops: "closure_ops n h f sd c" and ord: "order_ok so" and nm: "names_ok n on an sd"
    and M: "sd [] = M"
  shows "\<exists>c0 st Gs. h M = Inr (c []) \<and> new_concept on an hs (c []) M = Inr c0 \<and>
     lindig_loop so pidx n f h on an hs
       \<lparr>concepts = [c0], queue = [c0], subconcepts_dict = [(0, [])],
        superconcepts_dict = [], index = [(c0, 0)]\<rparr> = Some (Inr st) \<and>
     concepts st = map (closed_concept on an hs sd) Gs \<and> distinct Gs \<and> set Gs = range c"
proof -
  let ?K = "closed_concept on an hs sd"
  have v: "valid n []" unfolding valid_def by simp
  have hM: "h M = Inr (c [])" using ops_calls [OF ops v] M by simp
  have "sd (c []) = M" using ops_sd [OF ops v] M by simp
  moreover have "new_concept on an hs (c []) (sd (c [])) = Inr (?K (c []))"
    using nm ops_valid [OF ops] by (rule new_concept_ok)
  ultimately have nc: "new_concept on an hs (c []) M = Inr (?K (c []))"
    by simp
  obtain st Gs where run: "lindig_loop so pidx n f h on an hs
       \<lparr>concepts = [?K (c [])], queue = [?K (c [])], subconcepts_dict = [(0, [])],
        superconcepts_dict = [], index = [(?K (c []), 0)]\<rparr> = Some (Inr st)"
    and inv: "lindig_inv c ?K Gs [] st"
    using lindig_loop_correct [OF ops ord nm refl lindig_inv_initial [OF ops]] by blast
  have w: "lindig_weak c ?K Gs [] st" using inv unfolding lindig_inv_def by blast
  have "set Gs = range c" by (rule lindig_final [OF ops inv])
  then show ?thesis
    using hM nc run weakD(1,4) [OF w] by blast
qed

lemma int_list_Nil: "int_list ctx [] = [0..<n_attributes ctx]"
  unfolding int_list_def by simp

lemma ext_list_Nil: "ext_list ctx [] = [0..<n_objects ctx]"
  unfolding ext_list_def by simp

lemma names_ok_extents:
  assumes wf: "wf_context ctx"
  shows "names_ok (n_objects ctx) (object_names ctx) (attribute_names ctx) (int_list ctx)"
proof -
  have lo: "length (object_names ctx) = n_objects ctx"
    and la: "length (attribute_names ctx) = n_attributes ctx"
    using wf unfolding wf_context_def n_objects_def n_attributes_def by blast+
  show ?thesis
    unfolding names_ok_def lo la by (simp add: int_list_valid)
qed

lemma names_ok_intents:
  assumes wf: "wf_context ctx"
  shows "names_ok (n_attributes ctx) (attribute_names ctx) (object_names ctx) (ext_list ctx)"
proof -
  have lo: "length (object_names ctx) = n_objects ctx"
    and la: "length (attribute_names ctx) = n_attributes ctx"
    using wf unfolding wf_context_def n_objects_def n_attributes_def by blast+
  show ?thesis
    unfolding names_ok_def lo la by (simp add: ext_list_valid)
qed

lemma swap_closed_concept:
  "swap_concept hs (closed_concept an on hs sd B) = concept_of on an hs (sd B, B)"
  unfolding swap_concept_def closed_concept_def concept_of_def by simp

lemma lindig_algorithm_result:
  assumes wf: "wf_context ctx" and ord: "order_ok so"
  shows "\<exists>ps L. cbo_pairs ctx b ps \<and>
     lindig_algorithm so pidx hf (FormalContext ctx) (Some b) = Some (Inr L) \<and>
     lattice_concepts L = map (concept_of (object_names ctx) (attribute_names ctx) (hf ctx)) ps"
proof (cases b)
  case True
  let ?c = "\<lambda>xs. ext_list ctx (int_list ctx xs)"
  obtain c0 st Gs where
    hM: "extension_i ctx [0..<n_attributes ctx] = Inr (?c [])"
    and nc: "new_concept (object_names ctx) (attribute_names ctx) (hf ctx) (?c [])
        [0..<n_attributes ctx] = Inr c0"
    and run: "lindig_loop so pidx (n_objects ctx) (intention_i ctx) (extension_i ctx)
       (object_names ctx) (attribute_names ctx) (hf ctx)
       \<lparr>concepts = [c0], queue = [c0], subconcepts_dict = [(0, [])],
        superconcepts_dict = [], index = [(c0, 0)]\<rparr> = Some (Inr st)"
    and cs: "concepts st = map (closed_concept (object_names ctx) (attribute_names ctx)
        (hf ctx) (int_list ctx)) Gs"
    and d: "distinct Gs" and all: "set Gs = range ?c"
    using lindig_run [OF closure_ops_extents [OF wf] ord names_ok_extents [OF wf] int_list_Nil,
        where pidx = pidx and hs = "hf ctx"]
    by blast
  let ?ps = "zip Gs (map (int_list ctx) Gs)"
  let ?L = "\<lparr>lattice_concepts = concepts st, lattice_subconcepts_dict = subconcepts_dict st,
             lattice_superconcepts_dict = superconcepts_dict st\<rparr>"
  have "cbo_pairs ctx True ?ps" using d all by (rule pairs_extents)
  then have ps: "cbo_pairs ctx b ?ps" using True by simp
  have r: "lindig_algorithm so pidx hf (FormalContext ctx) (Some b) = Some (Inr ?L)"
    unfolding lindig_algorithm_def using hM by (simp add: True nc run)
  have "concepts st = map (concept_of (object_names ctx) (attribute_names ctx) (hf ctx)) ?ps"
    unfolding cs zip_map_right by (simp add: comp_def closed_concept_def)
  then have l: "lattice_concepts ?L =
      map (concept_of (object_names ctx) (attribute_names ctx) (hf ctx)) ?ps"
    by simp
  show ?thesis
    by (rule exI [of _ ?ps], rule exI [of _ ?L]) (intro conjI ps r l)
next
  case False
  let ?c = "\<lambda>xs. int_list ctx (ext_list ctx xs)"
  obtain c0 st Gs where
    hM: "intention_i ctx [0..<n_objects ctx] = Inr (?c [])"
    and nc: "new_concept (attribute_names ctx) (object_names ctx) (hf ctx) (?c [])
        [0..<n_objects ctx] = Inr c0"
    and run: "lindig_loop so pidx (n_attributes ctx) (extension_i ctx) (intention_i ctx)
       (attribute_names ctx) (object_names ctx) (hf ctx)
       \<lparr>concepts = [c0], queue = [c0], subconcepts_dict = [(0, [])],
        superconcepts_dict = [], index = [(c0, 0)]\<rparr> = Some (Inr st)"
    and cs: "concepts st = map (closed_concept (attribute_names ctx) (object_names ctx)
        (hf ctx) (ext_list ctx)) Gs"
    and d: "distinct Gs" and all: "set Gs = range ?c"
    using lindig_run [OF closure_ops_intents [OF wf] ord names_ok_intents [OF wf] ext_list_Nil,
        where pidx = pidx and hs = "hf ctx"]
    by blast
  let ?ps = "zip (map (ext_list ctx) Gs) Gs"
  let ?L = "\<lparr>lattice_concepts = map (swap_concept (hf ctx)) (concepts st),
             lattice_subconcepts_dict = superconcepts_dict st,
             lattice_superconcepts_dict = subconcepts_dict st\<rparr>"
  have "cbo_pairs ctx False ?ps" using d all by (rule pairs_intents)
  then have ps: "cbo_pairs ctx b ?ps" using False by simp
  have r: "lindig_algorithm so pidx hf (FormalContext ctx) (Some b) = Some (Inr ?L)"
    unfolding lindig_algorithm_def using hM by (simp add: False nc run)
  have "map (swap_concept (hf ctx)) (concepts st) =
      map (concept_of (object_names ctx) (attribute_names ctx) (hf ctx)) ?ps"
    unfolding cs zip_map_left by (simp add: comp_def swap_closed_concept)
  then have l: "lattice_concepts ?L =
      map (concept_of (object_names ctx) (attribute_names ctx) (hf ctx)) ?ps"
    by simp
  show ?thesis
    by (rule exI [of _ ?ps], rule exI [of _ ?L]) (intro conjI ps r l)
qed

lemma lindig_algorithm_default:
  "lindig_algorithm so pidx hf (FormalContext ctx) None =
   lindig_algorithm so pidx hf (FormalContext ctx) (Some (n_objects ctx < n_attributes ctx))"
  unfolding lindig_algorithm_def by simp

lemma order_ok_sorted: "order_ok sorted_list_of_set"
  unfolding order_ok_def by simp

text \<open>
  Claim C6.  On every well-formed formal context, for every iteration order of the Python
  sets and every behaviour of \<open>pop\<close>, and for every \<open>iterate_extents\<close> of either algorithm,
  \<open>lindig_algorithm\<close> returns a lattice and \<open>close_by_one\<close> returns a list of concepts, and the
  two hold the same concepts: the same set of pairs of extent index set and intent index
  set.
\<close>

theorem lindig_equals_close_by_one:
  assumes wf: "wf_context ctx" and ord: "order_ok set_order"
  shows "\<exists>L cs.
     lindig_algorithm set_order pop_index hf (FormalContext ctx :: 'p fca_context)
       lindig_iterate_extents = Some (Inr L) \<and>
     close_by_one hf (FormalContext ctx :: 'p fca_context) True (Some iterate_extents) None None =
       Some (Inr (Concepts cs)) \<and>
     set (lattice_concepts L) = set cs \<and>
     (\<lambda>x. (extent_i x, intent_i x)) ` set (lattice_concepts L) =
       (\<lambda>x. (extent_i x, intent_i x)) ` set cs"
proof -
  let ?mk = "concept_of (object_names ctx) (attribute_names ctx) (hf ctx)"
  define b where "b = (case lindig_iterate_extents of
      None \<Rightarrow> n_objects ctx < n_attributes ctx | Some x \<Rightarrow> x)"
  have e: "lindig_algorithm set_order pop_index hf (FormalContext ctx :: 'p fca_context)
       lindig_iterate_extents =
     lindig_algorithm set_order pop_index hf (FormalContext ctx :: 'p fca_context) (Some b)"
    unfolding b_def by (cases lindig_iterate_extents) (simp_all add: lindig_algorithm_default)
  obtain ps1 L where ps1: "cbo_pairs ctx b ps1"
    and r1: "lindig_algorithm set_order pop_index hf (FormalContext ctx :: 'p fca_context)
        (Some b) = Some (Inr L)"
    and l: "lattice_concepts L = map ?mk ps1"
    using lindig_algorithm_result [OF wf ord, of b pop_index hf] by blast
  obtain ps2 where ps2: "cbo_pairs ctx iterate_extents ps2"
    and r2: "close_by_one hf (FormalContext ctx :: 'p fca_context) True (Some iterate_extents)
        None None = Some (Inr (Concepts (map ?mk ps2)))"
    using close_by_one_result [OF wf, of iterate_extents hf] by blast
  have "set ps1 = set ps2"
    using cbo_pairs_set [OF ps1] cbo_pairs_set [OF ps2] by simp
  then have s: "set (lattice_concepts L) = set (map ?mk ps2)"
    unfolding l by simp
  then have p: "(\<lambda>x. (extent_i x, intent_i x)) ` set (lattice_concepts L) =
       (\<lambda>x. (extent_i x, intent_i x)) ` set (map ?mk ps2)"
    by simp
  show ?thesis
    unfolding e by (rule exI [of _ L], rule exI [of _ "map ?mk ps2"]) (intro conjI r1 r2 s p)
qed

theorem lindig_equals_close_by_one_witness:
  "wf_context animal_movement \<and> order_ok sorted_list_of_set \<and>
   (\<exists>L cs.
     lindig_algorithm sorted_list_of_set (\<lambda>q. 0) (\<lambda>_. 0)
       (FormalContext animal_movement :: unit fca_context) None = Some (Inr L) \<and>
     close_by_one (\<lambda>_. 0) (FormalContext animal_movement :: unit fca_context)
       True (Some True) None None = Some (Inr (Concepts cs)) \<and>
     set (lattice_concepts L) = set cs \<and>
     (\<lambda>x. (extent_i x, intent_i x)) ` set (lattice_concepts L) =
       (\<lambda>x. (extent_i x, intent_i x)) ` set cs)"
  using wf_animal_movement order_ok_sorted
    lindig_equals_close_by_one [OF wf_animal_movement order_ok_sorted,
      of "\<lambda>q. 0" "\<lambda>_. 0" None True]
  by (intro conjI)

end
